theory Spec2Isabelle
  imports Main "HOL-Library.Multiset" "HOL-Library.Char_ord" "HOL-Library.List_Lexorder"
begin

section \<open>Conversation analyzer: errors and characters\<close>

text \<open>
  The exceptions the engine can raise, as values. In the Python source they are
  \<^item> \<open>UnrecognizedFormat\<close>: \<^verbatim>\<open>ValueError("Unrecognized JSON format")\<close> of
    \<^verbatim>\<open>load_conversation_file\<close>;
  \<^item> \<open>TimestampParseError\<close>: the \<^verbatim>\<open>ValueError\<close> of \<^verbatim>\<open>datetime.strptime\<close>;
  \<^item> \<open>EmptySessionError\<close>: the \<^verbatim>\<open>IndexError\<close> of \<^verbatim>\<open>conversation['messages'][0]\<close>;
  \<^item> \<open>KeyError k\<close>: a dictionary read at a key \<open>k\<close> that is absent.
\<close>

datatype error = UnrecognizedFormat | TimestampParseError | EmptySessionError | KeyError string

text \<open>
  The file name, the label, the roles and the timestamps are HOL strings; a character
  stands for its code point, from 0 to 255. These strings are only compared, split at a
  fixed character and matched against the regular expression of the time format. The
  character classes of that regular expression on these code points are \<open>is_space\<close>
  (\<^verbatim>\<open>\s\<close>: the ASCII whitespace with the separators 28 to 31, U+0085 and U+00A0) and
  \<open>is_digit\<close> (\<^verbatim>\<open>\d\<close>: the digits 0 to 9, the only decimal digits below 256).
\<close>

definition code :: "char \<Rightarrow> nat" where
  "code c = of_char c"

definition is_space :: "char \<Rightarrow> bool" where
  "is_space c =
     ((9 \<le> code c \<and> code c \<le> 13) \<or> (28 \<le> code c \<and> code c \<le> 32) \<or>
      code c = 133 \<or> code c = 160)"

definition is_digit :: "char \<Rightarrow> bool" where
  "is_digit c = (48 \<le> code c \<and> code c \<le> 57)"

definition digit_val :: "char \<Rightarrow> nat" where
  "digit_val c = code c - 48"

section \<open>Time classifier\<close>

text \<open>
  \<^verbatim>\<open>datetime.strptime(s, "%I:%M %p")\<close>. The format is compiled to the regular expression
  \<^verbatim>\<open>(?P<I>1[0-2]|0[1-9]|[1-9]):(?P<M>[0-5]\d|\d)\s+(?P<p>am|pm)\<close>, matched ignoring case
  at the start of the string; a match that does not reach the end of the string is the
  error "unconverted data remains". The date defaults to 1900-01-01 for every result, so
  the value kept is the hour (0 to 23) and the minute.
\<close>

record time_obj =
  hour :: nat
  minute :: nat

datatype ampm = AM | PM

fun match_I :: "string \<Rightarrow> (nat \<times> string) option" where
  "match_I (a # b # r) =
     (if a = CHR ''1'' \<and> 48 \<le> code b \<and> code b \<le> 50 then Some (10 + digit_val b, r)
      else if a = CHR ''0'' \<and> 49 \<le> code b \<and> code b \<le> 57 then Some (digit_val b, r)
      else if 49 \<le> code a \<and> code a \<le> 57 then Some (digit_val a, b # r)
      else None)"
| "match_I [a] = (if 49 \<le> code a \<and> code a \<le> 57 then Some (digit_val a, []) else None)"
| "match_I [] = None"

fun match_colon :: "string \<Rightarrow> string option" where
  "match_colon (c # r) = (if c = CHR '':'' then Some r else None)"
| "match_colon [] = None"

fun match_M :: "string \<Rightarrow> (nat \<times> string) option" where
  "match_M (a # b # r) =
     (if 48 \<le> code a \<and> code a \<le> 53 \<and> is_digit b then Some (10 * digit_val a + digit_val b, r)
      else if is_digit a then Some (digit_val a, b # r)
      else None)"
| "match_M [a] = (if is_digit a then Some (digit_val a, []) else None)"
| "match_M [] = None"

fun match_spaces :: "string \<Rightarrow> string option" where
  "match_spaces (c # r) = (if is_space c then Some (dropWhile is_space r) else None)"
| "match_spaces [] = None"

text \<open>The group \<^verbatim>\<open>am|pm\<close>, matched ignoring case: the only characters that match
  \<^verbatim>\<open>a\<close>, \<^verbatim>\<open>p\<close> and \<^verbatim>\<open>m\<close> are these letters and their capitals.\<close>

definition match_p :: "string \<Rightarrow> ampm option" where
  "match_p s =
     (if s \<in> set [''am'', ''aM'', ''Am'', ''AM''] then Some AM
      else if s \<in> set [''pm'', ''pM'', ''Pm'', ''PM''] then Some PM
      else None)"

definition to_hour24 :: "nat \<Rightarrow> ampm \<Rightarrow> nat" where
  "to_hour24 h p =
     (case p of AM \<Rightarrow> (if h = 12 then 0 else h)
              | PM \<Rightarrow> (if h \<noteq> 12 then h + 12 else h))"

definition strptime :: "string \<Rightarrow> error + time_obj" where
  "strptime s =
     (case match_I s of None \<Rightarrow> Inl TimestampParseError
      | Some (h, r1) \<Rightarrow>
     (case match_colon r1 of None \<Rightarrow> Inl TimestampParseError
      | Some r2 \<Rightarrow>
     (case match_M r2 of None \<Rightarrow> Inl TimestampParseError
      | Some (m, r3) \<Rightarrow>
     (case match_spaces r3 of None \<Rightarrow> Inl TimestampParseError
      | Some r4 \<Rightarrow>
     (case match_p r4 of None \<Rightarrow> Inl TimestampParseError
      | Some p \<Rightarrow> Inr \<lparr>hour = to_hour24 h p, minute = m\<rparr>)))))"

datatype period = Morning | Afternoon | Evening | Night

definition categorize_time_period :: "string \<Rightarrow> error + period" where
  "categorize_time_period time_string =
     (case strptime time_string of Inl e \<Rightarrow> Inl e
      | Inr time_obj \<Rightarrow>
          (let h = hour time_obj in
           if 6 \<le> h \<and> h < 12 then Inr Morning
           else if 12 \<le> h \<and> h < 17 then Inr Afternoon
           else if 17 \<le> h \<and> h < 22 then Inr Evening
           else Inr Night))"

text \<open>
  \<^verbatim>\<open>(end - start).total_seconds()\<close>: both values lie on 1900-01-01 and have no seconds,
  so the difference is a whole number of seconds, a multiple of 60 below 86400 in size.
\<close>

definition total_seconds :: "time_obj \<Rightarrow> time_obj \<Rightarrow> int" where
  "total_seconds e s =
     (int (hour e) * 3600 + int (minute e) * 60) - (int (hour s) * 3600 + int (minute s) * 60)"

text \<open>
  \<^verbatim>\<open>int(x / 60)\<close> for a whole number of seconds \<open>x\<close>: the quotient, truncated toward
  zero. (The source divides as floating point; every value here is an integer below
  \<open>2 ^ 53\<close> in size, where that division followed by \<^verbatim>\<open>int\<close> is this truncation.)
\<close>

definition int_div60 :: "int \<Rightarrow> int" where
  "int_div60 x = sgn x * (\<bar>x\<bar> div 60)"

definition calculate_duration :: "string \<Rightarrow> string \<Rightarrow> error + int" where
  "calculate_duration start_time end_time =
     (case strptime start_time of Inl e \<Rightarrow> Inl e
      | Inr start \<Rightarrow>
     (case strptime end_time of Inl e \<Rightarrow> Inl e
      | Inr end' \<Rightarrow> Inr (int_div60 (total_seconds end' start))))"

text \<open>
  The well-formed timestamps of the specification: a two-digit hour from 01 to 12, a
  colon, a two-digit minute from 00 to 59, one space and \<^verbatim>\<open>AM\<close> or \<^verbatim>\<open>PM\<close>.
  \<open>fmt12 h m p\<close> writes the timestamp of hour \<open>h\<close>, minute \<open>m\<close> and marker \<open>p\<close>.
\<close>

definition digit_char :: "nat \<Rightarrow> char" where
  "digit_char d = char_of (48 + d)"

definition two_digits :: "nat \<Rightarrow> string" where
  "two_digits n = [digit_char (n div 10), digit_char (n mod 10)]"

definition marker :: "ampm \<Rightarrow> string" where
  "marker p = (case p of AM \<Rightarrow> ''AM'' | PM \<Rightarrow> ''PM'')"

definition fmt12 :: "nat \<Rightarrow> nat \<Rightarrow> ampm \<Rightarrow> string" where
  "fmt12 h m p = two_digits h @ '':'' @ two_digits m @ '' '' @ marker p"

text \<open>The clock time of a timestamp, in minutes after midnight.\<close>

definition clock_minutes :: "nat \<Rightarrow> nat \<Rightarrow> ampm \<Rightarrow> int" where
  "clock_minutes h m p = int (to_hour24 h p) * 60 + int m"

section \<open>Data model\<close>

text \<open>
  The text of a message is read by the topic extractor with string methods that know all
  of Unicode, so it is kept as a Python string is: the list of its code points, of any
  size. \<open>code_points s\<close> is the text that has the characters of the HOL string \<open>s\<close>.
\<close>

type_synonym str = "nat list"

definition code_points :: "string \<Rightarrow> str" where
  "code_points s = map code s"

text \<open>
  A message is a dictionary with the keys \<^verbatim>\<open>role\<close> and \<^verbatim>\<open>content\<close>. The content is a
  string (\<open>Text\<close>) or some other JSON value (\<open>Structured\<close>); the engine reads a value
  that is not a string only through \<^verbatim>\<open>str(message['content'])\<close>, so \<open>Structured\<close>
  holds that text.
\<close>

datatype content = Text str | Structured str

record message =
  role :: string
  content :: content

record conversation =
  messages :: "message list"
  start_time :: string
  end_time :: string

text \<open>
  The value of \<^verbatim>\<open>json.load\<close>: a dictionary, of which the entries at \<^verbatim>\<open>date\<close> and
  \<^verbatim>\<open>conversations\<close> matter (\<open>None\<close>: the key is absent), a list of conversations, or
  any other JSON value. The types say what the functions take for granted: where the keys
  are present, \<^verbatim>\<open>date\<close> is a string, \<^verbatim>\<open>conversations\<close> is a list, and every
  conversation and message in it has its keys.
\<close>

datatype raw_data =
    RawDict "string option" "conversation list option"
  | RawList "conversation list"
  | RawOther

text \<open>
  The dictionary that \<^verbatim>\<open>load_conversation_file\<close> returns. It always has the key
  \<^verbatim>\<open>conversations\<close>; the key \<^verbatim>\<open>date\<close> is there or not (\<open>None\<close>).
\<close>

record data =
  date :: "string option"
  conversations :: "conversation list"

section \<open>Format normalizer\<close>

text \<open>\<^verbatim>\<open>s.startswith(p)\<close>, \<^verbatim>\<open>sub in s\<close>, \<^verbatim>\<open>s.split(sep)\<close> for a one-character
  separator, \<^verbatim>\<open>s.replace(old, new)\<close> for a non-empty \<open>old\<close>, and
  \<^verbatim>\<open>os.path.basename\<close> (the text after the last slash).\<close>

fun startswith :: "string \<Rightarrow> string \<Rightarrow> bool" where
  "startswith s [] = True"
| "startswith [] (p # ps) = False"
| "startswith (c # s) (p # ps) = (c = p \<and> startswith s ps)"

fun contains :: "string \<Rightarrow> string \<Rightarrow> bool" where
  "contains sub [] = (sub = [])"
| "contains sub (c # s) = (startswith (c # s) sub \<or> contains sub s)"

fun split :: "char \<Rightarrow> string \<Rightarrow> string list" where
  "split sep [] = [[]]"
| "split sep (c # s) =
     (if c = sep then [] # split sep s
      else (let parts = split sep s in (c # hd parts) # tl parts))"

fun replace :: "string \<Rightarrow> string \<Rightarrow> string \<Rightarrow> string" where
  "replace old new [] = []"
| "replace old new (c # s) =
     (if startswith (c # s) old then new @ replace old new (drop (length old - 1) s)
      else c # replace old new s)"

definition basename :: "string \<Rightarrow> string" where
  "basename p = rev (takeWhile (\<lambda>c. c \<noteq> CHR ''/'') (rev p))"

text \<open>The loop over the parts of the file name, left at the first part that matches;
  \<open>date0\<close> is the value of \<^verbatim>\<open>date\<close> before the loop.\<close>

fun scan_parts :: "string list \<Rightarrow> string \<Rightarrow> string" where
  "scan_parts [] date0 = date0"
| "scan_parts (part # parts) date0 =
     (if startswith part ''20'' \<and> contains ''.json'' part then replace ''.json'' [] part
      else scan_parts parts date0)"

definition load_conversation_file :: "string \<Rightarrow> raw_data \<Rightarrow> error + data" where
  "load_conversation_file filepath raw_data =
     (case raw_data of
        RawDict d (Some cs) \<Rightarrow> Inr \<lparr>date = d, conversations = cs\<rparr>
      | RawDict d None \<Rightarrow> Inl UnrecognizedFormat
      | RawList cs \<Rightarrow>
          (let filename = basename filepath;
               date = (if contains ''20'' filename
                       then scan_parts (split CHR ''_'' filename) ''Unknown Date''
                       else ''Unknown Date'')
           in Inr \<lparr>date = Some date, conversations = cs\<rparr>)
      | RawOther \<Rightarrow> Inl UnrecognizedFormat)"

section \<open>Participant detector\<close>

definition detect_participants :: "data \<Rightarrow> string list" where
  "detect_participants d =
     sorted_list_of_set (set (concat (map (\<lambda>c. map role (messages c)) (conversations d))))"

section \<open>Topic extractor\<close>

text \<open>
  The topic extractor reads the text of a message with three string methods of Python
  that look characters up in the Unicode character database of the interpreter, which is
  not part of this program. They are a parameter \<open>U\<close> of the model:
  \<^item> \<open>isspace U c\<close>: the character of code point \<open>c\<close> is whitespace, at which
    \<^verbatim>\<open>str.split()\<close> splits;
  \<^item> \<open>isalnum U c\<close>: \<^verbatim>\<open>c.isalnum()\<close> for the character of code point \<open>c\<close>;
  \<^item> \<open>lower U s\<close>: \<^verbatim>\<open>s.lower()\<close>, a function of the whole string (it is not a map
    over the characters: the result can be longer than \<open>s\<close>, and a letter can depend on
    its neighbours).
\<close>

record unicode_db =
  isspace :: "nat \<Rightarrow> bool"
  isalnum :: "nat \<Rightarrow> bool"
  lower :: "str \<Rightarrow> str"

text \<open>
  The three methods on text of the code points 0 to 255, where they are known in full.
  Whitespace: 9 to 13, 28 to 32, U+0085 and U+00A0. Alphanumeric: the ASCII digits and
  letters, the letters U+00AA, U+00B5 and U+00BA, the superscript digits U+00B2,
  U+00B3 and U+00B9, the fractions U+00BC to U+00BE, and the letters U+00C0 to U+00FF,
  which leaves out the signs U+00D7 and U+00F7. Lower case: 32 is added to the capital
  letters, A to Z and U+00C0 to U+00DE without U+00D7, and below 256 that is a map over
  the characters. \<open>latin1\<close> stands for Python's methods on text of these code points
  only; it leaves larger code points as they are and in no class.
\<close>

definition latin1_isspace :: "nat \<Rightarrow> bool" where
  "latin1_isspace c = ((9 \<le> c \<and> c \<le> 13) \<or> (28 \<le> c \<and> c \<le> 32) \<or> c = 133 \<or> c = 160)"

definition latin1_isalnum :: "nat \<Rightarrow> bool" where
  "latin1_isalnum c =
     ((48 \<le> c \<and> c \<le> 57) \<or> (65 \<le> c \<and> c \<le> 90) \<or> (97 \<le> c \<and> c \<le> 122) \<or>
      c = 170 \<or> c = 178 \<or> c = 179 \<or> c = 181 \<or> c = 185 \<or> c = 186 \<or>
      (188 \<le> c \<and> c \<le> 190) \<or> (192 \<le> c \<and> c \<le> 214) \<or> (216 \<le> c \<and> c \<le> 246) \<or>
      (248 \<le> c \<and> c \<le> 255))"

definition latin1_lower :: "nat \<Rightarrow> nat" where
  "latin1_lower c =
     (if (65 \<le> c \<and> c \<le> 90) \<or> (192 \<le> c \<and> c \<le> 214) \<or> (216 \<le> c \<and> c \<le> 222)
      then c + 32 else c)"

definition latin1 :: unicode_db where
  "latin1 = \<lparr>isspace = latin1_isspace, isalnum = latin1_isalnum, lower = map latin1_lower\<rparr>"

definition stop_words :: "str list" where
  "stop_words = map code_points
    [''the'', ''be'', ''to'', ''of'', ''and'', ''a'', ''in'', ''that'', ''have'', ''i'',
     ''it'', ''for'', ''not'', ''on'', ''with'', ''he'', ''as'', ''you'', ''do'', ''at'',
     ''this'', ''but'', ''his'', ''by'', ''from'', ''they'', ''we'', ''say'', ''her'', ''she'',
     ''or'', ''an'', ''will'', ''my'', ''one'', ''all'', ''would'', ''there'', ''their'',
     ''what'', ''so'', ''up'', ''out'', ''if'', ''about'', ''who'', ''get'', ''which'', ''go'',
     ''me'', ''when'', ''make'', ''can'', ''like'', ''time'', ''no'', ''just'', ''him'', ''know'',
     ''take'', ''into'', ''your'', ''some'', ''could'', ''them'', ''see'', ''other'', ''than'',
     ''then'', ''now'', ''look'', ''only'', ''come'', ''its'', ''over'', ''think'', ''also'',
     ''back'', ''after'', ''use'', ''two'', ''how'', ''our'', ''work'', ''first'', ''well'',
     ''way'', ''even'', ''new'', ''want'', ''because'', ''any'', ''these'', ''give'', ''day'',
     ''most'', ''us'', ''is'', ''was'', ''are'', ''been'', ''has'', ''had'', ''were'', ''said'',
     ''did'', ''having'', ''may'', ''am'', ''are'', ''im'', ''youre'', ''thats'', ''dont'',
     ''ive'', ''isnt'', ''arent'', ''wasnt'', ''werent'', ''wont'', ''cant'', ''couldnt'']"

text \<open>The text of a message: the content itself, or \<^verbatim>\<open>str\<close> of it.\<close>

fun content_str :: "content \<Rightarrow> str" where
  "content_str (Text s) = s"
| "content_str (Structured s) = s"

text \<open>\<^verbatim>\<open>s.split()\<close>: the maximal runs of characters that are not whitespace; \<open>cur\<close>
  is the run being read.\<close>

fun split_acc :: "unicode_db \<Rightarrow> str \<Rightarrow> str \<Rightarrow> str list" where
  "split_acc U cur [] = (if cur = [] then [] else [cur])"
| "split_acc U cur (c # s) =
     (if isspace U c then (if cur = [] then split_acc U [] s else cur # split_acc U [] s)
      else split_acc U (cur @ [c]) s)"

definition split_whitespace :: "unicode_db \<Rightarrow> str \<Rightarrow> str list" where
  "split_whitespace U s = split_acc U [] s"

text \<open>
  \<^verbatim>\<open>word_counts\<close> is a dictionary, which keeps its keys in the order of their first
  insertion: an association list. \<open>count_word\<close> is the \<^verbatim>\<open>if clean_word in word_counts\<close>
  statement.
\<close>

type_synonym word_counts = "(str \<times> nat) list"

fun count_word :: "str \<Rightarrow> word_counts \<Rightarrow> word_counts" where
  "count_word w [] = [(w, 1)]"
| "count_word w ((k, n) # kvs) =
     (if k = w then (k, n + 1) # kvs else (k, n) # count_word w kvs)"

definition clean :: "unicode_db \<Rightarrow> str \<Rightarrow> str" where
  "clean U word = filter (isalnum U) word"

fun count_words :: "unicode_db \<Rightarrow> word_counts \<Rightarrow> str list \<Rightarrow> word_counts" where
  "count_words U wc [] = wc"
| "count_words U wc (word # words) =
     (let clean_word = clean U word in
      if length clean_word < 3 \<or> clean_word \<in> set stop_words then count_words U wc words
      else count_words U (count_word clean_word wc) words)"

fun count_messages :: "unicode_db \<Rightarrow> word_counts \<Rightarrow> message list \<Rightarrow> word_counts" where
  "count_messages U wc [] = wc"
| "count_messages U wc (message # rest) =
     count_messages U
       (count_words U wc (split_whitespace U (lower U (content_str (content message))))) rest"

fun count_conversations :: "unicode_db \<Rightarrow> word_counts \<Rightarrow> conversation list \<Rightarrow> word_counts" where
  "count_conversations U wc [] = wc"
| "count_conversations U wc (conversation # rest) =
     count_conversations U (count_messages U wc (messages conversation)) rest"

text \<open>
  \<^verbatim>\<open>sorted(items, key=lambda x: x[1], reverse=True)\<close>: a stable sort of the reversed
  list, reversed again. \<^verbatim>\<open>xs[:n]\<close>: the first \<open>n\<close> elements, and for a negative \<open>n\<close>
  all but the last \<open>- n\<close>.
\<close>

definition sorted_reverse :: "word_counts \<Rightarrow> word_counts" where
  "sorted_reverse items = rev (sort_key snd (rev items))"

definition slice_to :: "int \<Rightarrow> 'a list \<Rightarrow> 'a list" where
  "slice_to n xs = (if 0 \<le> n then take (nat n) xs else take (nat (int (length xs) + n)) xs)"

definition extract_topics :: "unicode_db \<Rightarrow> data \<Rightarrow> int \<Rightarrow> word_counts" where
  "extract_topics U d top_n =
     (let word_counts = count_conversations U [] (conversations d);
          sorted_topics = sorted_reverse word_counts
      in slice_to top_n sorted_topics)"

section \<open>Statistics aggregator\<close>

record conv_info =
  index :: nat
  message_count :: nat
  duration_minutes :: int
  info_start_time :: string
  info_end_time :: string
  time_period :: period

text \<open>
  The dictionary \<^verbatim>\<open>stats\<close>. \<^verbatim>\<open>time_periods\<close> has the four periods as its keys from
  the start, so it is a total function; the dictionaries keyed by participant are maps.
\<close>

record stats =
  stats_date :: string
  num_conversations :: nat
  total_messages :: nat
  participants :: "string list"
  messages_by_participant :: "string \<rightharpoonup> nat"
  conversation_lengths :: "conv_info list"
  shortest_conversation :: "conv_info option"
  longest_conversation :: "conv_info option"
  time_periods :: "period \<Rightarrow> nat"
  conversations_started_by :: "string \<rightharpoonup> nat"
  message_lengths_by_participant :: "string \<rightharpoonup> nat list"

definition init_stats :: "string \<Rightarrow> data \<Rightarrow> stats" where
  "init_stats d dat =
     (let ps = detect_participants dat in
      \<lparr>stats_date = d,
       num_conversations = length (conversations dat),
       total_messages = 0,
       participants = ps,
       messages_by_participant = map_of (map (\<lambda>p. (p, 0)) ps),
       conversation_lengths = [],
       shortest_conversation = None,
       longest_conversation = None,
       time_periods = (\<lambda>_. 0),
       conversations_started_by = map_of (map (\<lambda>p. (p, 0)) ps),
       message_lengths_by_participant = map_of (map (\<lambda>p. (p, [])) ps)\<rparr>)"

text \<open>The loop over the messages of one conversation.\<close>

fun tally_messages :: "stats \<Rightarrow> message list \<Rightarrow> error + stats" where
  "tally_messages st [] = Inr st"
| "tally_messages st (message # rest) =
     (let st1 = st\<lparr>total_messages := total_messages st + 1\<rparr>;
          msg_length = length (content_str (content message));
          participant = role message
      in case messages_by_participant st1 participant of
           None \<Rightarrow> Inl (KeyError participant)
         | Some n \<Rightarrow>
        (let st2 = st1\<lparr>messages_by_participant :=
                         (messages_by_participant st1)(participant \<mapsto> n + 1)\<rparr>
         in case message_lengths_by_participant st2 participant of
              None \<Rightarrow> Inl (KeyError participant)
            | Some ls \<Rightarrow>
                tally_messages
                  (st2\<lparr>message_lengths_by_participant :=
                         (message_lengths_by_participant st2)(participant \<mapsto> ls @ [msg_length])\<rparr>)
                  rest))"

text \<open>The body of the loop over the conversations; \<open>i\<close> counts from 0.\<close>

definition tally_conversation :: "stats \<Rightarrow> nat \<Rightarrow> conversation \<Rightarrow> error + stats" where
  "tally_conversation st i conversation =
     (let message_count = length (messages conversation) in
      case calculate_duration (start_time conversation) (end_time conversation) of
        Inl e \<Rightarrow> Inl e
      | Inr duration \<Rightarrow>
     (case categorize_time_period (start_time conversation) of
        Inl e \<Rightarrow> Inl e
      | Inr tp \<Rightarrow>
     (let st1 = st\<lparr>time_periods := (time_periods st)(tp := time_periods st tp + message_count)\<rparr>
      in case messages conversation of
           [] \<Rightarrow> Inl EmptySessionError
         | first # _ \<Rightarrow>
        (let first_speaker = role first
         in case conversations_started_by st1 first_speaker of
              None \<Rightarrow> Inl (KeyError first_speaker)
            | Some n \<Rightarrow>
           (let st2 = st1\<lparr>conversations_started_by :=
                            (conversations_started_by st1)(first_speaker \<mapsto> n + 1)\<rparr>;
                info = \<lparr>index = i + 1,
                        message_count = message_count,
                        duration_minutes = duration,
                        info_start_time = start_time conversation,
                        info_end_time = end_time conversation,
                        time_period = tp\<rparr>;
                st3 = st2\<lparr>conversation_lengths := conversation_lengths st2 @ [info]\<rparr>;
                st4 = (case shortest_conversation st3 of
                         None \<Rightarrow> st3\<lparr>shortest_conversation := Some info\<rparr>
                       | Some s \<Rightarrow>
                           if message_count < conv_info.message_count s
                           then st3\<lparr>shortest_conversation := Some info\<rparr> else st3);
                st5 = (case longest_conversation st4 of
                         None \<Rightarrow> st4\<lparr>longest_conversation := Some info\<rparr>
                       | Some l \<Rightarrow>
                           if message_count > conv_info.message_count l
                           then st4\<lparr>longest_conversation := Some info\<rparr> else st4)
            in tally_messages st5 (messages conversation))))))"

fun tally_conversations :: "stats \<Rightarrow> nat \<Rightarrow> conversation list \<Rightarrow> error + stats" where
  "tally_conversations st i [] = Inr st"
| "tally_conversations st i (conversation # rest) =
     (case tally_conversation st i conversation of
        Inl e \<Rightarrow> Inl e
      | Inr st' \<Rightarrow> tally_conversations st' (i + 1) rest)"

definition get_basic_stats :: "data \<Rightarrow> error + stats" where
  "get_basic_stats dat =
     (case date dat of
        None \<Rightarrow> Inl (KeyError ''date'')
      | Some d \<Rightarrow> tally_conversations (init_stats d dat) 0 (conversations dat))"

section \<open>Notions of the specification\<close>

text \<open>
  The label as the specification words it, for comparison with the loader: the first part
  of the hint, split at underscores, that begins with \<^verbatim>\<open>20\<close> and ends with \<^verbatim>\<open>.json\<close>,
  without that suffix, and \<^verbatim>\<open>Unknown Date\<close> when there is none.
\<close>

definition endswith :: "string \<Rightarrow> string \<Rightarrow> bool" where
  "endswith s suf = startswith (rev s) (rev suf)"

definition spec_label :: "string \<Rightarrow> string" where
  "spec_label hint =
     (case find (\<lambda>t. startswith t ''20'' \<and> endswith t ''.json'') (split CHR ''_'' hint) of
        None \<Rightarrow> ''Unknown Date''
      | Some t \<Rightarrow> take (length t - length ''.json'') t)"

text \<open>
  A session whose two timestamps are accepted by the parser, and a well-formed session,
  which has at least one message as well.
\<close>

definition timestamps_ok :: "conversation \<Rightarrow> bool" where
  "timestamps_ok c = (\<not> isl (strptime (start_time c)) \<and> \<not> isl (strptime (end_time c)))"

definition well_formed_session :: "conversation \<Rightarrow> bool" where
  "well_formed_session c = (messages c \<noteq> [] \<and> timestamps_ok c)"

text \<open>The sum of the counters that a dictionary holds for the participants \<open>ps\<close>.\<close>

definition total_by :: "string list \<Rightarrow> (string \<rightharpoonup> nat) \<Rightarrow> nat" where
  "total_by ps m = sum_list (map (\<lambda>p. case m p of None \<Rightarrow> 0 | Some n \<Rightarrow> n) ps)"

text \<open>The sum of the four period totals.\<close>

definition period_total :: "(period \<Rightarrow> nat) \<Rightarrow> nat" where
  "period_total f = f Morning + f Afternoon + f Evening + f Night"

text \<open>
  The dictionaries keyed by participant have exactly the participants as their keys, and
  no participant is listed twice.
\<close>

definition keys_ok :: "stats \<Rightarrow> bool" where
  "keys_ok st =
     (distinct (participants st) \<and>
      dom (messages_by_participant st) = set (participants st) \<and>
      dom (conversations_started_by st) = set (participants st) \<and>
      dom (message_lengths_by_participant st) = set (participants st))"

text \<open>The summary that the aggregator builds for the conversation at position \<open>i\<close>
  (counted from 0), given its duration and period.\<close>

definition summary :: "nat \<Rightarrow> conversation \<Rightarrow> int \<Rightarrow> period \<Rightarrow> conv_info" where
  "summary i c d tp =
     \<lparr>index = i + 1, message_count = length (messages c), duration_minutes = d,
      info_start_time = start_time c, info_end_time = end_time c, time_period = tp\<rparr>"

text \<open>
  \<open>first_least ns i\<close>: position \<open>i\<close> is the first one at which the list \<open>ns\<close> has its
  least value; \<open>first_greatest\<close> likewise for the greatest value.
\<close>

definition first_least :: "nat list \<Rightarrow> nat \<Rightarrow> bool" where
  "first_least ns i =
     (i < length ns \<and> (\<forall>j < length ns. ns ! i \<le> ns ! j) \<and> (\<forall>j < i. ns ! i < ns ! j))"

definition first_greatest :: "nat list \<Rightarrow> nat \<Rightarrow> bool" where
  "first_greatest ns i =
     (i < length ns \<and> (\<forall>j < length ns. ns ! j \<le> ns ! i) \<and> (\<forall>j < i. ns ! j < ns ! i))"

text \<open>
  The statistics after the loop body for one message \<open>m\<close>, whose participant had the
  count \<open>n\<close> and the lengths \<open>ls\<close> before.
\<close>

definition counted :: "stats \<Rightarrow> message \<Rightarrow> nat \<Rightarrow> nat list \<Rightarrow> stats" where
  "counted st m n ls =
     st\<lparr>total_messages := total_messages st + 1,
        messages_by_participant := (messages_by_participant st)(role m \<mapsto> n + 1),
        message_lengths_by_participant :=
          (message_lengths_by_participant st)(role m \<mapsto> ls @ [length (content_str (content m))])\<rparr>"

text \<open>
  The statistics after the part of the loop body for one conversation \<open>c\<close> that comes
  before its messages are counted: \<open>d\<close> is its duration, \<open>tp\<close> its period and \<open>n\<close> the
  number of conversations its first speaker had started before.
\<close>

definition opened :: "stats \<Rightarrow> nat \<Rightarrow> conversation \<Rightarrow> int \<Rightarrow> period \<Rightarrow> nat \<Rightarrow> stats" where
  "opened st i c d tp n =
     (let info = summary i c d tp;
          st3 = st\<lparr>time_periods :=
                     (time_periods st)(tp := time_periods st tp + length (messages c)),
                   conversations_started_by :=
                     (conversations_started_by st)(role (hd (messages c)) \<mapsto> n + 1),
                   conversation_lengths := conversation_lengths st @ [info]\<rparr>;
          st4 = (case shortest_conversation st3 of
                   None \<Rightarrow> st3\<lparr>shortest_conversation := Some info\<rparr>
                 | Some s \<Rightarrow>
                     if length (messages c) < message_count s
                     then st3\<lparr>shortest_conversation := Some info\<rparr> else st3)
      in case longest_conversation st4 of
           None \<Rightarrow> st4\<lparr>longest_conversation := Some info\<rparr>
         | Some l \<Rightarrow>
             if length (messages c) > message_count l
             then st4\<lparr>longest_conversation := Some info\<rparr> else st4)"

text \<open>\<open>summarises i c x\<close>: \<open>x\<close> is the summary of the conversation \<open>c\<close> at position \<open>i\<close>.\<close>

definition summarises :: "nat \<Rightarrow> conversation \<Rightarrow> conv_info \<Rightarrow> bool" where
  "summarises i c x =
     (index x = i + 1 \<and> message_count x = length (messages c) \<and>
      info_start_time x = start_time c \<and> info_end_time x = end_time c \<and>
      calculate_duration (start_time c) (end_time c) = Inr (duration_minutes x) \<and>
      categorize_time_period (start_time c) = Inr (time_period x))"

text \<open>
  The stored extremes are right for the summaries collected so far: none when there is
  no summary, and otherwise the first summary with the least, and the first with the
  greatest, message count.
\<close>

definition extremes_ok :: "stats \<Rightarrow> bool" where
  "extremes_ok st =
     (if conversation_lengths st = []
      then shortest_conversation st = None \<and> longest_conversation st = None
      else (\<exists>i. first_least (map message_count (conversation_lengths st)) i \<and>
                 shortest_conversation st = Some (conversation_lengths st ! i)) \<and>
           (\<exists>j. first_greatest (map message_count (conversation_lengths st)) j \<and>
                 longest_conversation st = Some (conversation_lengths st ! j)))"

text \<open>The three sums of the statistics agree with its totals.\<close>

definition consistent :: "stats \<Rightarrow> bool" where
  "consistent st =
     (period_total (time_periods st) = total_messages st \<and>
      total_by (participants st) (messages_by_participant st) = total_messages st \<and>
      total_by (participants st) (conversations_started_by st)
        = length (conversation_lengths st))"

text \<open>A result of the aggregator with the label \<open>l\<close> put in place of its own.\<close>

definition with_date :: "string \<Rightarrow> error + stats \<Rightarrow> error + stats" where
  "with_date l r = (case r of Inl e \<Rightarrow> Inl e | Inr s \<Rightarrow> Inr (s\<lparr>stats_date := l\<rparr>))"

text \<open>The two sessions of the end-to-end scenario of the specification, a session
  without messages, the log of the scenario, and a log of four sessions with 2, 1, 1 and 2
  messages.\<close>

definition example_sessions :: "conversation list" where
  "example_sessions =
     [\<lparr>messages = [\<lparr>role = ''alice'', content = Text (code_points ''hello world today'')\<rparr>,
                   \<lparr>role = ''bob'', content = Text (code_points ''hello back today'')\<rparr>],
       start_time = ''09:00 AM'', end_time = ''09:10 AM''\<rparr>,
      \<lparr>messages = [\<lparr>role = ''bob'', content = Text (code_points ''quick chat'')\<rparr>],
       start_time = ''02:00 PM'', end_time = ''02:02 PM''\<rparr>]"

definition empty_session :: conversation where
  "empty_session = \<lparr>messages = [], start_time = ''03:00 PM'', end_time = ''03:05 PM''\<rparr>"

definition example_log :: data where
  "example_log = \<lparr>date = Some ''2025-10-30'', conversations = example_sessions\<rparr>"

definition tied_log :: data where
  "tied_log = \<lparr>date = Some ''2025-10-30'',
     conversations = example_sessions @ rev example_sessions\<rparr>"

text \<open>The elements of a list in the order of their first occurrence, each once.\<close>

fun first_seen :: "'a list \<Rightarrow> 'a list" where
  "first_seen [] = []"
| "first_seen (x # xs) = x # removeAll x (first_seen xs)"

text \<open>
  The words of a log in the order in which the topic extractor meets them: \<open>lowered\<close> are
  the texts of its messages in lower case, and \<open>raw_tokens\<close> the words these split into
  at whitespace. \<open>counted_word\<close> is the test a clean word passes to be counted, and
  \<open>kept_tokens\<close> are the clean words that are counted.
\<close>

definition lowered :: "unicode_db \<Rightarrow> data \<Rightarrow> str list" where
  "lowered U d =
     map (\<lambda>m. lower U (content_str (content m))) (concat (map messages (conversations d)))"

definition raw_tokens :: "unicode_db \<Rightarrow> data \<Rightarrow> str list" where
  "raw_tokens U d = concat (map (split_whitespace U) (lowered U d))"

definition counted_word :: "str \<Rightarrow> bool" where
  "counted_word w = (\<not> (length w < 3 \<or> w \<in> set stop_words))"

definition kept_tokens :: "unicode_db \<Rightarrow> data \<Rightarrow> str list" where
  "kept_tokens U d = filter counted_word (map (clean U) (raw_tokens U d))"

text \<open>
  \<open>agree_below k U V\<close>: the methods \<open>U\<close> and \<open>V\<close> are the same on text of code points
  below \<open>k\<close>. Python's methods agree with \<open>latin1\<close> below 256, and so below 128, on ASCII
  text.
\<close>

definition agree_below :: "nat \<Rightarrow> unicode_db \<Rightarrow> unicode_db \<Rightarrow> bool" where
  "agree_below k U V =
     ((\<forall>c < k. isspace U c = isspace V c) \<and> (\<forall>c < k. isalnum U c = isalnum V c) \<and>
      (\<forall>s. (\<forall>c \<in> set s. c < k) \<longrightarrow> lower U s = lower V s))"

text \<open>The texts of a log, as they are written.\<close>

definition texts :: "data \<Rightarrow> str list" where
  "texts d = map (\<lambda>m. content_str (content m)) (concat (map messages (conversations d)))"

text \<open>A log of one message, and the one of the topic filtering example of the
  specification.\<close>

definition one_message :: "str \<Rightarrow> data" where
  "one_message s =
     \<lparr>date = Some ''2025-10-30'',
      conversations =
        [\<lparr>messages = [\<lparr>role = ''alice'', content = Text s\<rparr>],
          start_time = ''09:00 AM'', end_time = ''09:10 AM''\<rparr>]\<rparr>"

definition topic_example :: data where
  "topic_example = one_message (code_points ''The the THE cat sat on a mat and the dog ran'')"

section \<open>Properties of the time classifier\<close>

lemma code_digit_char: "d < 10 \<Longrightarrow> code (digit_char d) = 48 + d"
  by (simp add: code_def digit_char_def)

lemma char_eq_code: "c = d \<longleftrightarrow> code c = code d"
  by (simp add: code_def)

lemma code_lits: "code CHR ''0'' = 48" "code CHR ''1'' = 49"
  by (simp_all add: code_def)

lemma digit_val_digit_char: "d < 10 \<Longrightarrow> digit_val (digit_char d) = d"
  by (simp add: digit_val_def code_digit_char)

lemma match_I_two_digits:
  assumes "1 \<le> h" "h \<le> 12"
  shows "match_I (two_digits h @ r) = Some (h, r)"
proof (cases "h < 10")
  case True
  then have "h div 10 = 0" "h mod 10 = h" by simp_all
  with assms True show ?thesis
    by (simp add: two_digits_def char_eq_code code_lits code_digit_char digit_val_digit_char)
next
  case False
  with assms have d: "h div 10 = 1" "h mod 10 \<le> 2" and e: "10 + h mod 10 = h"
    by presburger+
  from d have "match_I (two_digits h @ r) = Some (10 + h mod 10, r)"
    by (simp add: two_digits_def char_eq_code code_lits code_digit_char digit_val_digit_char)
  with e show ?thesis by simp
qed

lemma match_M_two_digits:
  assumes "m < 60"
  shows "match_M (two_digits m @ r) = Some (m, r)"
proof -
  from assms have d: "m div 10 \<le> 5" "m mod 10 < 10" by presburger+
  have e: "10 * (m div 10) + m mod 10 = m" by simp
  from d have "match_M (two_digits m @ r) = Some (10 * (m div 10) + m mod 10, r)"
    by (simp add: two_digits_def is_digit_def code_digit_char digit_val_digit_char)
  then show ?thesis unfolding e .
qed

lemma match_spaces_marker: "match_spaces ('' '' @ marker p) = Some (marker p)"
  by (cases p) (simp_all add: marker_def is_space_def code_def)

lemma match_p_marker: "match_p (marker p) = Some p"
proof (cases p)
  case AM
  have "match_p ''AM'' = Some AM" by code_simp
  with AM show ?thesis by (simp add: marker_def)
next
  case PM
  have "match_p ''PM'' = Some PM" by code_simp
  with PM show ?thesis by (simp add: marker_def)
qed

lemma strptime_fmt12:
  assumes "1 \<le> h" "h \<le> 12" "m < 60"
  shows "strptime (fmt12 h m p) = Inr \<lparr>hour = to_hour24 h p, minute = m\<rparr>"
proof -
  have "match_I (fmt12 h m p) = Some (h, '':'' @ two_digits m @ '' '' @ marker p)"
    unfolding fmt12_def using assms by (rule_tac match_I_two_digits)
  moreover have "match_M (two_digits m @ '' '' @ marker p) = Some (m, '' '' @ marker p)"
    using assms by (rule_tac match_M_two_digits)
  ultimately show ?thesis
    using match_spaces_marker [of p] match_p_marker [of p]
    by (simp add: strptime_def)
qed

lemma match_I_range: "match_I s = Some (h, r) \<Longrightarrow> 1 \<le> h \<and> h \<le> 12"
  by (cases s rule: match_I.cases) (auto simp: digit_val_def split: if_splits)

lemma to_hour24_range: "1 \<le> h \<Longrightarrow> h \<le> 12 \<Longrightarrow> to_hour24 h p < 24"
  by (cases p) (simp_all add: to_hour24_def)

lemma strptime_hour_range: "strptime s = Inr t \<Longrightarrow> hour t < 24"
  by (auto simp: strptime_def split: option.splits prod.splits
        dest!: match_I_range intro!: to_hour24_range)

lemma categorize_of_strptime:
  "strptime s = Inr t \<Longrightarrow>
   \<exists>q. categorize_time_period s = Inr q \<and>
     (q = Morning \<longleftrightarrow> 6 \<le> hour t \<and> hour t < 12) \<and>
     (q = Afternoon \<longleftrightarrow> 12 \<le> hour t \<and> hour t < 17) \<and>
     (q = Evening \<longleftrightarrow> 17 \<le> hour t \<and> hour t < 22) \<and>
     (q = Night \<longleftrightarrow> hour t < 6 \<or> 22 \<le> hour t)"
  by (auto simp: categorize_time_period_def Let_def)

lemma int_div60_mult: "int_div60 (60 * k) = k"
proof -
  have "sgn (60 * k) = sgn k" by (simp add: sgn_mult)
  moreover have "\<bar>60 * k\<bar> div 60 = \<bar>k\<bar>" by (simp add: abs_mult)
  ultimately show ?thesis by (simp add: int_div60_def mult_sgn_abs)
qed

lemma total_seconds_clock:
  "total_seconds \<lparr>hour = to_hour24 h2 p2, minute = m2\<rparr> \<lparr>hour = to_hour24 h1 p1, minute = m1\<rparr>
     = 60 * (clock_minutes h2 m2 p2 - clock_minutes h1 m1 p1)"
  by (simp add: total_seconds_def clock_minutes_def)

lemma calculate_duration_fmt12:
  assumes "1 \<le> h1" "h1 \<le> 12" "m1 < 60" "1 \<le> h2" "h2 \<le> 12" "m2 < 60"
  shows "calculate_duration (fmt12 h1 m1 p1) (fmt12 h2 m2 p2)
           = Inr (clock_minutes h2 m2 p2 - clock_minutes h1 m1 p1)"
proof -
  have "strptime (fmt12 h1 m1 p1) = Inr \<lparr>hour = to_hour24 h1 p1, minute = m1\<rparr>"
       "strptime (fmt12 h2 m2 p2) = Inr \<lparr>hour = to_hour24 h2 p2, minute = m2\<rparr>"
    using assms by (simp_all add: strptime_fmt12)
  then show ?thesis
    by (simp only: calculate_duration_def sum.case total_seconds_clock int_div60_mult)
qed

lemma calculate_duration_parsed:
  assumes "strptime s = Inr a" and "strptime e = Inr b"
  shows "calculate_duration s e
           = Inr ((int (hour b) * 60 + int (minute b)) - (int (hour a) * 60 + int (minute a)))"
proof -
  have "total_seconds b a
          = 60 * ((int (hour b) * 60 + int (minute b)) - (int (hour a) * 60 + int (minute a)))"
    by (simp add: total_seconds_def)
  with assms show ?thesis
    by (simp only: calculate_duration_def sum.case int_div60_mult)
qed

text \<open>
  C4. For well-formed timestamps, the duration is the clock time of the end minus the
  clock time of the start, in minutes, both on the same day: a whole number, so the
  truncation changes nothing. An end that is earlier on the clock than the start gives a
  negative duration. From 03:03 PM to 03:08 PM it is 5 minutes, and from 11:55 PM to
  12:05 AM it is -1430 minutes. The same difference is the duration for every two
  strings that the parser accepts.
\<close>

theorem calculate_duration_well_formed:
  "(1 \<le> h1 \<and> h1 \<le> 12 \<and> m1 < 60 \<and> 1 \<le> h2 \<and> h2 \<le> 12 \<and> m2 < 60 \<longrightarrow>
      calculate_duration (fmt12 h1 m1 p1) (fmt12 h2 m2 p2)
        = Inr (clock_minutes h2 m2 p2 - clock_minutes h1 m1 p1) \<and>
      (clock_minutes h2 m2 p2 < clock_minutes h1 m1 p1 \<longrightarrow>
         (\<exists>d. calculate_duration (fmt12 h1 m1 p1) (fmt12 h2 m2 p2) = Inr d \<and> d < 0))) \<and>
   calculate_duration ''03:03 PM'' ''03:08 PM'' = Inr 5 \<and>
   calculate_duration ''11:55 PM'' ''12:05 AM'' = Inr (- 1430) \<and>
   (strptime s = Inr a \<and> strptime e = Inr b \<longrightarrow>
      calculate_duration s e
        = Inr ((int (hour b) * 60 + int (minute b)) - (int (hour a) * 60 + int (minute a))))"
proof -
  have "calculate_duration ''03:03 PM'' ''03:08 PM'' = Inr 5" by code_simp
  moreover have "calculate_duration ''11:55 PM'' ''12:05 AM'' = Inr (- 1430)" by code_simp
  ultimately show ?thesis by (simp add: calculate_duration_fmt12 calculate_duration_parsed)
qed

theorem calculate_duration_well_formed_witness:
  "fmt12 11 55 PM = ''11:55 PM'' \<and> fmt12 12 5 AM = ''12:05 AM'' \<and>
   clock_minutes 12 5 AM < clock_minutes 11 55 PM \<and>
   calculate_duration (fmt12 11 55 PM) (fmt12 12 5 AM)
     = Inr (clock_minutes 12 5 AM - clock_minutes 11 55 PM) \<and>
   (\<exists>d. calculate_duration (fmt12 11 55 PM) (fmt12 12 5 AM) = Inr d \<and> d < 0)"
proof -
  have a: "fmt12 11 55 PM = ''11:55 PM''" "fmt12 12 5 AM = ''12:05 AM''" by code_simp+
  have b: "clock_minutes 12 5 AM < clock_minutes 11 55 PM"
    by (simp add: clock_minutes_def to_hour24_def)
  from b a show ?thesis
    using calculate_duration_well_formed [of 11 55 12 5 PM AM] by simp
qed

text \<open>
  C6. A well-formed timestamp of hour \<open>h\<close> (1 to 12), minute \<open>m\<close> and marker \<open>p\<close> is
  parsed to the 24-hour value \<open>to_hour24 h p\<close>, which is below 24, and its period is
  Morning exactly for the hours 6 to 11, Afternoon for 12 to 16, Evening for 17 to 21 and
  Night for the others. The eight boundary timestamps of the specification fall as it says.
  Every string that the parser accepts has an hour below 24 and falls into the period of
  that hour in the same way.
\<close>

theorem categorize_time_period_well_formed:
  "(1 \<le> h \<and> h \<le> 12 \<and> m < 60 \<longrightarrow>
      to_hour24 h p < 24 \<and>
      strptime (fmt12 h m p) = Inr \<lparr>hour = to_hour24 h p, minute = m\<rparr> \<and>
      (\<exists>q. categorize_time_period (fmt12 h m p) = Inr q \<and>
         (q = Morning \<longleftrightarrow> 6 \<le> to_hour24 h p \<and> to_hour24 h p < 12) \<and>
         (q = Afternoon \<longleftrightarrow> 12 \<le> to_hour24 h p \<and> to_hour24 h p < 17) \<and>
         (q = Evening \<longleftrightarrow> 17 \<le> to_hour24 h p \<and> to_hour24 h p < 22) \<and>
         (q = Night \<longleftrightarrow> to_hour24 h p < 6 \<or> 22 \<le> to_hour24 h p))) \<and>
   categorize_time_period ''06:00 AM'' = Inr Morning \<and>
   categorize_time_period ''11:59 AM'' = Inr Morning \<and>
   categorize_time_period ''12:00 PM'' = Inr Afternoon \<and>
   categorize_time_period ''04:59 PM'' = Inr Afternoon \<and>
   categorize_time_period ''05:00 PM'' = Inr Evening \<and>
   categorize_time_period ''09:59 PM'' = Inr Evening \<and>
   categorize_time_period ''10:00 PM'' = Inr Night \<and>
   categorize_time_period ''05:59 AM'' = Inr Night \<and>
   (strptime s = Inr t \<longrightarrow>
      hour t < 24 \<and>
      (\<exists>q. categorize_time_period s = Inr q \<and>
         (q = Morning \<longleftrightarrow> 6 \<le> hour t \<and> hour t < 12) \<and>
         (q = Afternoon \<longleftrightarrow> 12 \<le> hour t \<and> hour t < 17) \<and>
         (q = Evening \<longleftrightarrow> 17 \<le> hour t \<and> hour t < 22) \<and>
         (q = Night \<longleftrightarrow> hour t < 6 \<or> 22 \<le> hour t)))"
proof -
  have general: "to_hour24 h p < 24 \<and>
      strptime (fmt12 h m p) = Inr \<lparr>hour = to_hour24 h p, minute = m\<rparr> \<and>
      (\<exists>q. categorize_time_period (fmt12 h m p) = Inr q \<and>
         (q = Morning \<longleftrightarrow> 6 \<le> to_hour24 h p \<and> to_hour24 h p < 12) \<and>
         (q = Afternoon \<longleftrightarrow> 12 \<le> to_hour24 h p \<and> to_hour24 h p < 17) \<and>
         (q = Evening \<longleftrightarrow> 17 \<le> to_hour24 h p \<and> to_hour24 h p < 22) \<and>
         (q = Night \<longleftrightarrow> to_hour24 h p < 6 \<or> 22 \<le> to_hour24 h p))"
    if wf: "1 \<le> h" "h \<le> 12" "m < 60"
  proof -
    from wf have s: "strptime (fmt12 h m p) = Inr \<lparr>hour = to_hour24 h p, minute = m\<rparr>"
      by (rule strptime_fmt12)
    from categorize_of_strptime [OF s] s to_hour24_range [OF wf(1,2)]
    show ?thesis by simp
  qed
  have "categorize_time_period ''06:00 AM'' = Inr Morning" by code_simp
  moreover have "categorize_time_period ''11:59 AM'' = Inr Morning" by code_simp
  moreover have "categorize_time_period ''12:00 PM'' = Inr Afternoon" by code_simp
  moreover have "categorize_time_period ''04:59 PM'' = Inr Afternoon" by code_simp
  moreover have "categorize_time_period ''05:00 PM'' = Inr Evening" by code_simp
  moreover have "categorize_time_period ''09:59 PM'' = Inr Evening" by code_simp
  moreover have "categorize_time_period ''10:00 PM'' = Inr Night" by code_simp
  moreover have "categorize_time_period ''05:59 AM'' = Inr Night" by code_simp
  moreover have "hour t < 24 \<and>
      (\<exists>q. categorize_time_period s = Inr q \<and>
         (q = Morning \<longleftrightarrow> 6 \<le> hour t \<and> hour t < 12) \<and>
         (q = Afternoon \<longleftrightarrow> 12 \<le> hour t \<and> hour t < 17) \<and>
         (q = Evening \<longleftrightarrow> 17 \<le> hour t \<and> hour t < 22) \<and>
         (q = Night \<longleftrightarrow> hour t < 6 \<or> 22 \<le> hour t))"
    if "strptime s = Inr t"
    using that categorize_of_strptime [of s t] strptime_hour_range [of s t] by blast
  ultimately show ?thesis using general by blast
qed

theorem categorize_time_period_well_formed_witness:
  "fmt12 4 59 PM = ''04:59 PM'' \<and> to_hour24 4 PM = 16 \<and>
   strptime (fmt12 4 59 PM) = Inr \<lparr>hour = 16, minute = 59\<rparr> \<and>
   categorize_time_period (fmt12 4 59 PM) = Inr Afternoon"
proof -
  have a: "fmt12 4 59 PM = ''04:59 PM''" by code_simp
  have b: "to_hour24 4 PM = 16" by (simp add: to_hour24_def)
  from a b show ?thesis
    using categorize_time_period_well_formed [of 4 59 PM] by auto
qed

section \<open>Properties of the format normalizer\<close>

lemma split_not_Nil: "split sep s \<noteq> []"
  by (induction s) (auto simp: Let_def)

lemma startswith_hd_split: "startswith (hd (split sep s)) q \<Longrightarrow> startswith s q"
proof (induction s arbitrary: q)
  case Nil
  then show ?case by simp
next
  case (Cons c s)
  show ?case
  proof (cases q)
    case Nil
    then show ?thesis by simp
  next
    case (Cons a q')
    with Cons.prems Cons.IH [of q'] show ?thesis
      by (auto simp: Let_def split: if_splits)
  qed
qed

text \<open>A part of a split string that begins with \<open>p\<close> shows that \<open>p\<close> occurs in the
  string: the test \<^verbatim>\<open>"20" in filename\<close> before the loop never changes the result.\<close>

lemma part_startswith_contains:
  "t \<in> set (split sep s) \<Longrightarrow> startswith t p \<Longrightarrow> contains p s"
proof (induction s)
  case Nil
  then show ?case by (cases p) auto
next
  case (Cons c s)
  show ?case
  proof (cases "c = sep")
    case True
    with Cons show ?thesis by (cases p) auto
  next
    case False
    with Cons.prems have "t = c # hd (split sep s) \<or> t \<in> set (tl (split sep s))"
      by (simp add: Let_def)
    then show ?thesis
    proof
      assume t: "t = c # hd (split sep s)"
      show ?thesis
      proof (cases p)
        case Nil
        then show ?thesis by simp
      next
        case (Cons a p')
        with t Cons.prems(2) have "a = c" "startswith (hd (split sep s)) p'" by simp_all
        then have "startswith (c # s) p" using Cons by (simp add: startswith_hd_split)
        then show ?thesis by simp
      qed
    next
      assume "t \<in> set (tl (split sep s))"
      then have "t \<in> set (split sep s)" by (metis list.set_sel(2) split_not_Nil)
      with Cons show ?thesis by simp
    qed
  qed
qed

lemma scan_parts_find:
  "scan_parts ps d =
     (case find (\<lambda>t. startswith t ''20'' \<and> contains ''.json'' t) ps of
        None \<Rightarrow> d | Some t \<Rightarrow> replace ''.json'' [] t)"
  by (induction ps) simp_all

lemma find_None_no_20:
  assumes "\<not> contains ''20'' s"
  shows "find (\<lambda>t. startswith t ''20'' \<and> contains ''.json'' t) (split sep s) = None"
  using assms part_startswith_contains [of _ sep s "''20''"]
  by (auto simp: find_None_iff)

lemma load_list:
  "load_conversation_file fp (RawList cs) =
     Inr \<lparr>date = Some (case find (\<lambda>t. startswith t ''20'' \<and> contains ''.json'' t)
                              (split CHR ''_'' (basename fp)) of
                         None \<Rightarrow> ''Unknown Date'' | Some t \<Rightarrow> replace ''.json'' [] t),
          conversations = cs\<rparr>"
  by (simp add: load_conversation_file_def Let_def scan_parts_find find_None_no_20)

lemma replace_20_nonempty: "startswith t ''20'' \<Longrightarrow> replace ''.json'' [] t \<noteq> []"
  by (cases t) auto

lemma startswith_json_append:
  "\<not> startswith q ''json'' \<Longrightarrow> \<not> startswith (q @ ''.json'') ''json''"
  apply (cases q; simp)
  subgoal for a q1
    apply (cases q1; simp)
    subgoal for b q2
      apply (cases q2; simp)
      subgoal for c q3
        apply (cases q3; simp)
        done
      done
    done
  done

lemma replace_suffix:
  "\<not> contains ''.json'' q \<Longrightarrow> replace ''.json'' [] (q @ ''.json'') = q"
proof (induction q)
  case Nil
  show ?case by simp
next
  case (Cons c q)
  then have a: "\<not> startswith (c # q) ''.json''" and b: "\<not> contains ''.json'' q" by simp_all
  from a have "\<not> startswith (c # q @ ''.json'') ''.json''"
    using startswith_json_append [of q] by auto
  then have "replace ''.json'' [] ((c # q) @ ''.json'') = c # replace ''.json'' [] (q @ ''.json'')"
    by (simp del: startswith.simps)
  with Cons.IH [OF b] show ?case by simp
qed

text \<open>
  C1, as stated, fails: a dictionary with the key \<^verbatim>\<open>conversations\<close> and no key \<^verbatim>\<open>date\<close>
  is returned as it is, with no label at all, and the aggregator then stops with a
  \<^verbatim>\<open>KeyError\<close>; and a dictionary whose \<^verbatim>\<open>date\<close> is the empty string is returned
  with that empty label.
\<close>

theorem load_label_counterexample:
  "load_conversation_file ''log.json'' (RawDict None (Some [])) =
     Inr \<lparr>date = None, conversations = []\<rparr> \<and>
   get_basic_stats \<lparr>date = None, conversations = []\<rparr> = Inl (KeyError ''date'') \<and>
   load_conversation_file ''log.json'' (RawDict (Some []) (Some [])) =
     Inr \<lparr>date = Some [], conversations = []\<rparr>"
  by (simp add: load_conversation_file_def get_basic_stats_def)

text \<open>
  C1, amended. For a bare list the label is present and not empty, and it is
  \<^verbatim>\<open>Unknown Date\<close> when no part of the file name begins with \<^verbatim>\<open>20\<close> and contains
  \<^verbatim>\<open>.json\<close>. A dictionary with the keys \<^verbatim>\<open>conversations\<close> and \<^verbatim>\<open>date\<close> is returned
  unchanged, so its label is the one of the input, empty when that one is.
\<close>

theorem load_label:
  "(\<exists>l. load_conversation_file fp (RawList cs) = Inr \<lparr>date = Some l, conversations = cs\<rparr> \<and>
        l \<noteq> [] \<and>
        (find (\<lambda>t. startswith t ''20'' \<and> contains ''.json'' t) (split CHR ''_'' (basename fp))
           = None \<longrightarrow> l = ''Unknown Date'')) \<and>
   load_conversation_file fp (RawDict (Some d) (Some cs))
     = Inr \<lparr>date = Some d, conversations = cs\<rparr>"
proof -
  let ?f = "find (\<lambda>t. startswith t ''20'' \<and> contains ''.json'' t) (split CHR ''_'' (basename fp))"
  let ?l = "case ?f of None \<Rightarrow> ''Unknown Date'' | Some t \<Rightarrow> replace ''.json'' [] t"
  have a: "?l \<noteq> []"
  proof (cases ?f)
    case None
    then show ?thesis by simp
  next
    case (Some t)
    then have "startswith t ''20''" by (auto simp: find_Some_iff)
    with Some show ?thesis by (simp add: replace_20_nonempty)
  qed
  have b: "?f = None \<longrightarrow> ?l = ''Unknown Date''" by simp
  have c: "load_conversation_file fp (RawDict (Some d) (Some cs))
      = Inr \<lparr>date = Some d, conversations = cs\<rparr>"
    by (simp add: load_conversation_file_def)
  have e: "load_conversation_file fp (RawList cs) = Inr \<lparr>date = Some ?l, conversations = cs\<rparr>"
    by (rule load_list)
  show ?thesis
    by (intro conjI exI [of _ ?l]) (fact e a b c)+
qed

theorem load_label_witness:
  "find (\<lambda>t. startswith t ''20'' \<and> contains ''.json'' t) (split CHR ''_'' (basename ''chat.json''))
     = None \<and>
   load_conversation_file ''chat.json'' (RawList []) =
     Inr \<lparr>date = Some ''Unknown Date'', conversations = []\<rparr>"
proof -
  have a: "find (\<lambda>t. startswith t ''20'' \<and> contains ''.json'' t)
             (split CHR ''_'' (basename ''chat.json'')) = None"
    by code_simp
  with load_label [of "''chat.json''" "[]"] show ?thesis by auto
qed

text \<open>
  C3, as stated, fails: the file name \<^verbatim>\<open>2025.json.bak\<close> has no part that ends with
  \<^verbatim>\<open>.json\<close>, so the specification's label is \<^verbatim>\<open>Unknown Date\<close>, and the loader
  returns the label \<^verbatim>\<open>2025.bak\<close>.
\<close>

theorem load_list_label_counterexample:
  "spec_label (basename ''2025.json.bak'') = ''Unknown Date'' \<and>
   load_conversation_file ''2025.json.bak'' (RawList []) =
     Inr \<lparr>date = Some ''2025.bak'', conversations = []\<rparr>"
proof -
  have "spec_label (basename ''2025.json.bak'') = ''Unknown Date''" by code_simp
  moreover have "load_conversation_file ''2025.json.bak'' (RawList []) =
     Inr \<lparr>date = Some ''2025.bak'', conversations = []\<rparr>" by code_simp
  ultimately show ?thesis by simp
qed

text \<open>
  C3, amended. For a bare list the label is found in the file name (the path after its
  last slash), split at underscores: the first part that begins with \<^verbatim>\<open>20\<close> and contains
  \<^verbatim>\<open>.json\<close>, with every occurrence of \<^verbatim>\<open>.json\<close> removed; with no such part the label is
  \<^verbatim>\<open>Unknown Date\<close>. For a part that is a stem without \<^verbatim>\<open>.json\<close> followed by \<^verbatim>\<open>.json\<close>,
  what is left is the stem.
\<close>

theorem load_list_label:
  "load_conversation_file fp (RawList cs) =
     Inr \<lparr>date = Some (case find (\<lambda>t. startswith t ''20'' \<and> contains ''.json'' t)
                              (split CHR ''_'' (basename fp)) of
                         None \<Rightarrow> ''Unknown Date'' | Some t \<Rightarrow> replace ''.json'' [] t),
          conversations = cs\<rparr> \<and>
   (\<not> contains ''.json'' q \<longrightarrow> replace ''.json'' [] (q @ ''.json'') = q)"
  using load_list [of fp cs] replace_suffix [of q] by blast

theorem load_list_label_witness:
  "\<not> contains ''.json'' ''2025-10-25'' \<and>
   find (\<lambda>t. startswith t ''20'' \<and> contains ''.json'' t)
     (split CHR ''_'' (basename ''logs/daily_conversations_2025-10-25.json''))
     = Some (''2025-10-25'' @ ''.json'') \<and>
   load_conversation_file ''logs/daily_conversations_2025-10-25.json'' (RawList []) =
     Inr \<lparr>date = Some ''2025-10-25'', conversations = []\<rparr>"
proof -
  have a: "\<not> contains ''.json'' ''2025-10-25''" by code_simp
  have b: "find (\<lambda>t. startswith t ''20'' \<and> contains ''.json'' t)
     (split CHR ''_'' (basename ''logs/daily_conversations_2025-10-25.json''))
     = Some (''2025-10-25'' @ ''.json'')" by code_simp
  from load_list_label [of "''logs/daily_conversations_2025-10-25.json''" "[]" "''2025-10-25''"] a
  have "load_conversation_file ''logs/daily_conversations_2025-10-25.json'' (RawList []) =
     Inr \<lparr>date = Some ''2025-10-25'', conversations = []\<rparr>"
    unfolding b by simp
  with a b show ?thesis by blast
qed

section \<open>Properties of the statistics aggregator\<close>

lemma total_by_Cons:
  "total_by (a # ps) m = (case m a of None \<Rightarrow> 0 | Some n \<Rightarrow> n) + total_by ps m"
  by (simp add: total_by_def)

lemma total_by_upd_other: "p \<notin> set ps \<Longrightarrow> total_by ps (m(p \<mapsto> v)) = total_by ps m"
  by (induction ps) (auto simp: total_by_def)

lemma total_by_upd:
  "distinct ps \<Longrightarrow> p \<in> set ps \<Longrightarrow> m p = Some n \<Longrightarrow>
   total_by ps (m(p \<mapsto> n + 1)) = total_by ps m + 1"
proof (induction ps)
  case Nil
  then show ?case by simp
next
  case (Cons a ps)
  have "total_by (a # ps) (m(p \<mapsto> n + 1)) = total_by (a # ps) m + 1"
  proof (cases "a = p")
    case True
    with Cons.prems have "p \<notin> set ps" by simp
    then have "total_by ps (m(p \<mapsto> n + 1)) = total_by ps m" by (rule total_by_upd_other)
    then show ?thesis using True Cons.prems(3) by (simp add: total_by_Cons)
  next
    case False
    with Cons.prems have "distinct ps" "p \<in> set ps" by auto
    then have "total_by ps (m(p \<mapsto> n + 1)) = total_by ps m + 1"
      using Cons.prems(3) by (rule Cons.IH)
    then show ?thesis using False by (simp add: total_by_Cons)
  qed
  then show ?case .
qed

lemma period_total_upd: "period_total (f(tp := f tp + n)) = period_total f + n"
  by (cases tp) (simp_all add: period_total_def)

lemma tally_messages_Cons:
  "tally_messages st (m # ms) =
     (case messages_by_participant st (role m) of
        None \<Rightarrow> Inl (KeyError (role m))
      | Some n \<Rightarrow>
          (case message_lengths_by_participant st (role m) of
             None \<Rightarrow> Inl (KeyError (role m))
           | Some ls \<Rightarrow> tally_messages (counted st m n ls) ms))"
  by (simp add: Let_def counted_def split: option.splits)

lemma counted_fields:
  "total_messages (counted st m n ls) = total_messages st + 1"
  "stats_date (counted st m n ls) = stats_date st"
  "num_conversations (counted st m n ls) = num_conversations st"
  "participants (counted st m n ls) = participants st"
  "conversation_lengths (counted st m n ls) = conversation_lengths st"
  "shortest_conversation (counted st m n ls) = shortest_conversation st"
  "longest_conversation (counted st m n ls) = longest_conversation st"
  "time_periods (counted st m n ls) = time_periods st"
  "conversations_started_by (counted st m n ls) = conversations_started_by st"
  "messages_by_participant (counted st m n ls) = (messages_by_participant st)(role m \<mapsto> n + 1)"
  "message_lengths_by_participant (counted st m n ls) =
     (message_lengths_by_participant st)(role m \<mapsto> ls @ [length (content_str (content m))])"
  by (simp_all add: counted_def)

lemma tally_messages_ConsD:
  assumes "tally_messages st (m # ms) = Inr st'"
  obtains n ls where "messages_by_participant st (role m) = Some n"
    and "message_lengths_by_participant st (role m) = Some ls"
    and "tally_messages (counted st m n ls) ms = Inr st'"
  using assms unfolding tally_messages_Cons by (auto split: option.splits)

lemma tally_messages_frame:
  "tally_messages st ms = Inr st' \<Longrightarrow>
     total_messages st' = total_messages st + length ms \<and>
     stats_date st' = stats_date st \<and>
     num_conversations st' = num_conversations st \<and>
     participants st' = participants st \<and>
     conversation_lengths st' = conversation_lengths st \<and>
     shortest_conversation st' = shortest_conversation st \<and>
     longest_conversation st' = longest_conversation st \<and>
     time_periods st' = time_periods st \<and>
     conversations_started_by st' = conversations_started_by st"
proof (induction ms arbitrary: st)
  case Nil
  then show ?case by simp
next
  case (Cons m ms)
  from Cons.prems obtain n ls where "tally_messages (counted st m n ls) ms = Inr st'"
    by (rule tally_messages_ConsD)
  from Cons.IH [OF this] show ?case by (simp add: counted_fields)
qed

lemma tally_messages_keys:
  "tally_messages st ms = Inr st' \<Longrightarrow>
     dom (messages_by_participant st') = dom (messages_by_participant st) \<and>
     dom (message_lengths_by_participant st') = dom (message_lengths_by_participant st)"
proof (induction ms arbitrary: st)
  case Nil
  then show ?case by simp
next
  case (Cons m ms)
  from Cons.prems obtain n ls where
    n: "messages_by_participant st (role m) = Some n" and
    ls: "message_lengths_by_participant st (role m) = Some ls" and
    rest: "tally_messages (counted st m n ls) ms = Inr st'"
    by (rule tally_messages_ConsD)
  from n ls have "insert (role m) (dom (messages_by_participant st)) = dom (messages_by_participant st)"
    "insert (role m) (dom (message_lengths_by_participant st)) = dom (message_lengths_by_participant st)"
    by auto
  then have "dom (messages_by_participant (counted st m n ls)) = dom (messages_by_participant st)"
    "dom (message_lengths_by_participant (counted st m n ls)) = dom (message_lengths_by_participant st)"
    by (simp_all add: counted_fields)
  moreover have "dom (messages_by_participant st') = dom (messages_by_participant (counted st m n ls)) \<and>
     dom (message_lengths_by_participant st') = dom (message_lengths_by_participant (counted st m n ls))"
    by (rule Cons.IH [OF rest])
  ultimately have "dom (messages_by_participant st') = dom (messages_by_participant st) \<and>
     dom (message_lengths_by_participant st') = dom (message_lengths_by_participant st)"
    by simp
  then show ?case .
qed

lemma tally_messages_total_by:
  "tally_messages st ms = Inr st' \<Longrightarrow> distinct ps \<Longrightarrow>
   dom (messages_by_participant st) = set ps \<Longrightarrow>
     total_by ps (messages_by_participant st') = total_by ps (messages_by_participant st) + length ms"
proof (induction ms arbitrary: st)
  case Nil
  then show ?case by simp
next
  case (Cons m ms)
  from Cons.prems(1) obtain n ls where
    n: "messages_by_participant st (role m) = Some n" and
    rest: "tally_messages (counted st m n ls) ms = Inr st'"
    by (rule tally_messages_ConsD)
  from n Cons.prems(3) have in_ps: "role m \<in> set ps" by auto
  then have "dom (messages_by_participant (counted st m n ls)) = set ps"
    using Cons.prems(3) by (auto simp: counted_fields)
  with rest Cons.prems(2)
  have "total_by ps (messages_by_participant st')
          = total_by ps (messages_by_participant (counted st m n ls)) + length ms"
    by (rule Cons.IH)
  also have "total_by ps (messages_by_participant (counted st m n ls))
               = total_by ps (messages_by_participant st) + 1"
    unfolding counted_fields using Cons.prems(2) in_ps n by (rule total_by_upd)
  finally show ?case by simp
qed

lemma tally_messages_succeeds:
  "role ` set ms \<subseteq> dom (messages_by_participant st) \<Longrightarrow>
   role ` set ms \<subseteq> dom (message_lengths_by_participant st) \<Longrightarrow>
   \<exists>st'. tally_messages st ms = Inr st'"
proof (induction ms arbitrary: st)
  case Nil
  then show ?case by simp
next
  case (Cons m ms)
  from Cons.prems obtain n ls where
    n: "messages_by_participant st (role m) = Some n" and
    ls: "message_lengths_by_participant st (role m) = Some ls"
    by auto
  have "\<exists>st'. tally_messages (counted st m n ls) ms = Inr st'"
    using Cons.prems by (intro Cons.IH) (auto simp: counted_fields)
  with n ls show ?case by (simp add: tally_messages_Cons del: tally_messages.simps)
qed

lemma tally_conversation_eq:
  "tally_conversation st i c =
     (case calculate_duration (start_time c) (end_time c) of
        Inl e \<Rightarrow> Inl e
      | Inr d \<Rightarrow>
     (case categorize_time_period (start_time c) of
        Inl e \<Rightarrow> Inl e
      | Inr tp \<Rightarrow>
     (case messages c of
        [] \<Rightarrow> Inl EmptySessionError
      | first # rest \<Rightarrow>
     (case conversations_started_by st (role first) of
        None \<Rightarrow> Inl (KeyError (role first))
      | Some n \<Rightarrow> tally_messages (opened st i c d tp n) (messages c)))))"
proof (cases "calculate_duration (start_time c) (end_time c)")
  case (Inl e)
  then show ?thesis by (simp add: tally_conversation_def)
next
  case d: (Inr d)
  show ?thesis
  proof (cases "categorize_time_period (start_time c)")
    case (Inl e)
    with d show ?thesis by (simp add: tally_conversation_def)
  next
    case tp: (Inr tp)
    show ?thesis
    proof (cases "messages c")
      case Nil
      with d tp show ?thesis by (simp add: tally_conversation_def)
    next
      case ms: (Cons first rest)
      show ?thesis
      proof (cases "conversations_started_by st (role first)")
        case None
        with d tp ms show ?thesis by (simp add: tally_conversation_def)
      next
        case (Some n)
        with d tp ms show ?thesis
          by (cases "shortest_conversation st"; cases "longest_conversation st")
             (simp_all add: tally_conversation_def opened_def summary_def Let_def del: tally_messages.simps)
      qed
    qed
  qed
qed

lemma opened_fields:
  "total_messages (opened st i c d tp n) = total_messages st"
  "stats_date (opened st i c d tp n) = stats_date st"
  "num_conversations (opened st i c d tp n) = num_conversations st"
  "participants (opened st i c d tp n) = participants st"
  "messages_by_participant (opened st i c d tp n) = messages_by_participant st"
  "message_lengths_by_participant (opened st i c d tp n) = message_lengths_by_participant st"
  "time_periods (opened st i c d tp n)
     = (time_periods st)(tp := time_periods st tp + length (messages c))"
  "conversations_started_by (opened st i c d tp n)
     = (conversations_started_by st)(role (hd (messages c)) \<mapsto> n + 1)"
  "conversation_lengths (opened st i c d tp n) = conversation_lengths st @ [summary i c d tp]"
  "shortest_conversation (opened st i c d tp n) =
     (case shortest_conversation st of
        None \<Rightarrow> Some (summary i c d tp)
      | Some s \<Rightarrow> if length (messages c) < message_count s
                  then Some (summary i c d tp) else Some s)"
  "longest_conversation (opened st i c d tp n) =
     (case longest_conversation st of
        None \<Rightarrow> Some (summary i c d tp)
      | Some l \<Rightarrow> if length (messages c) > message_count l
                  then Some (summary i c d tp) else Some l)"
  by (cases "shortest_conversation st"; cases "longest_conversation st";
      simp add: opened_def Let_def)+

lemma tally_conversation_InrD:
  assumes "tally_conversation st i c = Inr st'"
  obtains d tp n where
    "calculate_duration (start_time c) (end_time c) = Inr d"
    "categorize_time_period (start_time c) = Inr tp"
    "messages c \<noteq> []"
    "conversations_started_by st (role (hd (messages c))) = Some n"
    "tally_messages (opened st i c d tp n) (messages c) = Inr st'"
  using assms unfolding tally_conversation_eq
  by (auto split: sum.splits list.splits option.splits)

lemma summarises_summary:
  "calculate_duration (start_time c) (end_time c) = Inr d \<Longrightarrow>
   categorize_time_period (start_time c) = Inr tp \<Longrightarrow> summarises i c (summary i c d tp)"
  by (simp add: summarises_def summary_def)

lemma tally_conversation_lengths:
  assumes "tally_conversation st i c = Inr st'"
  shows "\<exists>x. conversation_lengths st' = conversation_lengths st @ [x] \<and> summarises i c x"
proof -
  from assms obtain d tp n where
    d: "calculate_duration (start_time c) (end_time c) = Inr d" and
    tp: "categorize_time_period (start_time c) = Inr tp" and
    tm: "tally_messages (opened st i c d tp n) (messages c) = Inr st'"
    by (rule tally_conversation_InrD)
  from tally_messages_frame [OF tm]
  have "conversation_lengths st' = conversation_lengths st @ [summary i c d tp]"
    by (simp add: opened_fields)
  with summarises_summary [OF d tp] show ?thesis by blast
qed

lemma tally_conversation_keys:
  assumes "tally_conversation st i c = Inr st'" and "keys_ok st"
  shows "keys_ok st'"
proof -
  from assms(1) obtain d tp n where
    n: "conversations_started_by st (role (hd (messages c))) = Some n" and
    tm: "tally_messages (opened st i c d tp n) (messages c) = Inr st'"
    by (rule tally_conversation_InrD)
  from n have "insert (role (hd (messages c))) (dom (conversations_started_by st))
                 = dom (conversations_started_by st)" by auto
  then have "dom (conversations_started_by (opened st i c d tp n)) = dom (conversations_started_by st)"
    by (simp add: opened_fields)
  with tally_messages_frame [OF tm] tally_messages_keys [OF tm] assms(2)
  show ?thesis by (simp add: keys_ok_def opened_fields)
qed

lemma tally_conversation_consistent:
  assumes "tally_conversation st i c = Inr st'" and "keys_ok st" and "consistent st"
  shows "consistent st'"
proof -
  let ?ps = "participants st"
  from assms(1) obtain d tp n where
    n: "conversations_started_by st (role (hd (messages c))) = Some n" and
    tm: "tally_messages (opened st i c d tp n) (messages c) = Inr st'"
    by (rule tally_conversation_InrD)
  note fr = tally_messages_frame [OF tm]
  from assms(2) have dist: "distinct ?ps"
    and dm: "dom (messages_by_participant (opened st i c d tp n)) = set ?ps"
    and dc: "dom (conversations_started_by st) = set ?ps"
    by (simp_all add: keys_ok_def opened_fields)
  have a: "period_total (time_periods st') = period_total (time_periods st) + length (messages c)"
    using fr by (simp add: opened_fields period_total_upd)
  have b: "total_by ?ps (messages_by_participant st')
             = total_by ?ps (messages_by_participant st) + length (messages c)"
    using tally_messages_total_by [OF tm dist dm] by (simp add: opened_fields)
  from n dc have "role (hd (messages c)) \<in> set ?ps" by auto
  with dist have "total_by ?ps ((conversations_started_by st)(role (hd (messages c)) \<mapsto> n + 1))
          = total_by ?ps (conversations_started_by st) + 1"
    using n by (rule total_by_upd)
  then have c: "total_by ?ps (conversations_started_by st')
             = total_by ?ps (conversations_started_by st) + 1"
    using fr by (simp add: opened_fields)
  have e: "total_messages st' = total_messages st + length (messages c)"
    "length (conversation_lengths st') = length (conversation_lengths st) + 1"
    "participants st' = ?ps"
    using fr by (simp_all add: opened_fields)
  from a b c e assms(3) show ?thesis by (simp add: consistent_def)
qed

lemma tally_conversation_succeeds:
  assumes "keys_ok st" and "well_formed_session c"
    and "role ` set (messages c) \<subseteq> set (participants st)"
  shows "\<exists>st'. tally_conversation st i c = Inr st'"
proof -
  from assms(2) have ne: "messages c \<noteq> []"
    and "\<not> isl (strptime (start_time c))" "\<not> isl (strptime (end_time c))"
    by (simp_all add: well_formed_session_def timestamps_ok_def)
  then obtain s e where s: "strptime (start_time c) = Inr s"
    and e: "strptime (end_time c) = Inr e"
    by (cases "strptime (start_time c)"; cases "strptime (end_time c)") auto
  from s e obtain d where d: "calculate_duration (start_time c) (end_time c) = Inr d"
    by (simp add: calculate_duration_def)
  from categorize_of_strptime [OF s] obtain tp where
    tp: "categorize_time_period (start_time c) = Inr tp" by blast
  from ne obtain first rest where ms: "messages c = first # rest" by (cases "messages c") auto
  with assms(1,3) have "role first \<in> dom (conversations_started_by st)"
    by (simp add: keys_ok_def)
  then obtain n where n: "conversations_started_by st (role first) = Some n"
    by blast
  have "\<exists>st'. tally_messages (opened st i c d tp n) (messages c) = Inr st'"
    using assms(1,3) by (intro tally_messages_succeeds) (simp_all add: opened_fields keys_ok_def)
  with d tp ms n show ?thesis by (simp add: tally_conversation_eq del: tally_messages.simps)
qed

lemma first_least_single: "first_least [n] 0"
  by (simp add: first_least_def)

lemma first_greatest_single: "first_greatest [n] 0"
  by (simp add: first_greatest_def)

lemma first_least_snoc:
  assumes "first_least ns i"
  shows "first_least (ns @ [n]) (if n < ns ! i then length ns else i)"
proof (cases "n < ns ! i")
  case True
  have "\<forall>j < length ns. n < ns ! j"
  proof (intro allI impI)
    fix j assume "j < length ns"
    with assms have "ns ! i \<le> ns ! j" by (simp add: first_least_def)
    with True show "n < ns ! j" by simp
  qed
  with True show ?thesis
    by (auto simp: first_least_def nth_append less_Suc_eq)
next
  case False
  with assms show ?thesis
    by (auto simp: first_least_def nth_append less_Suc_eq)
qed

lemma first_greatest_snoc:
  assumes "first_greatest ns i"
  shows "first_greatest (ns @ [n]) (if ns ! i < n then length ns else i)"
proof (cases "ns ! i < n")
  case True
  have "\<forall>j < length ns. ns ! j < n"
  proof (intro allI impI)
    fix j assume "j < length ns"
    with assms have "ns ! j \<le> ns ! i" by (simp add: first_greatest_def)
    with True show "ns ! j < n" by simp
  qed
  with True show ?thesis
    by (auto simp: first_greatest_def nth_append less_Suc_eq)
next
  case False
  with assms show ?thesis
    by (auto simp: first_greatest_def nth_append less_Suc_eq)
qed

lemma extremes_ok_opened:
  assumes "extremes_ok st"
  shows "extremes_ok (opened st i c d tp n)"
proof -
  let ?st' = "opened st i c d tp n"
  let ?cl = "conversation_lengths st"
  let ?ns = "map message_count ?cl"
  let ?x = "summary i c d tp"
  have cl': "conversation_lengths ?st' = ?cl @ [?x]" by (simp add: opened_fields)
  have ns': "map message_count (?cl @ [?x]) = ?ns @ [length (messages c)]"
    by (simp add: summary_def)
  from cl' have ne: "conversation_lengths ?st' \<noteq> []" by simp
  have "(\<exists>a. first_least (?ns @ [length (messages c)]) a \<and>
            shortest_conversation ?st' = Some ((?cl @ [?x]) ! a)) \<and>
        (\<exists>b. first_greatest (?ns @ [length (messages c)]) b \<and>
            longest_conversation ?st' = Some ((?cl @ [?x]) ! b))"
  proof (cases "?cl = []")
    case True
    with assms have "shortest_conversation st = None" "longest_conversation st = None"
      by (simp_all add: extremes_ok_def)
    with True have "shortest_conversation ?st' = Some ((?cl @ [?x]) ! 0)"
      "longest_conversation ?st' = Some ((?cl @ [?x]) ! 0)"
      by (simp_all add: opened_fields)
    moreover from True have "first_least (?ns @ [length (messages c)]) 0"
      "first_greatest (?ns @ [length (messages c)]) 0"
      by (simp_all add: first_least_single first_greatest_single)
    ultimately show ?thesis by blast
  next
    case False
    with assms obtain a b where
      a: "first_least ?ns a" "shortest_conversation st = Some (?cl ! a)" and
      b: "first_greatest ?ns b" "longest_conversation st = Some (?cl ! b)"
      by (auto simp: extremes_ok_def)
    from a(1) b(1) have la: "a < length ?cl" and lb: "b < length ?cl"
      by (simp_all add: first_least_def first_greatest_def)
    let ?a' = "if length (messages c) < ?ns ! a then length ?ns else a"
    let ?b' = "if ?ns ! b < length (messages c) then length ?ns else b"
    have "first_least (?ns @ [length (messages c)]) ?a'" using a(1) by (rule first_least_snoc)
    moreover have "shortest_conversation ?st' = Some ((?cl @ [?x]) ! ?a')"
      using a(2) la by (simp add: opened_fields nth_append)
    moreover have "first_greatest (?ns @ [length (messages c)]) ?b'"
      using b(1) by (rule first_greatest_snoc)
    moreover have "longest_conversation ?st' = Some ((?cl @ [?x]) ! ?b')"
      using b(2) lb by (simp add: opened_fields nth_append)
    ultimately show ?thesis by blast
  qed
  then show ?thesis
    unfolding extremes_ok_def cl' ns' by simp
qed

lemma tally_conversation_extremes:
  assumes "tally_conversation st i c = Inr st'" and "extremes_ok st"
  shows "extremes_ok st'"
proof -
  from assms(1) obtain d tp n where
    tm: "tally_messages (opened st i c d tp n) (messages c) = Inr st'"
    by (rule tally_conversation_InrD)
  from extremes_ok_opened [OF assms(2), of i c d tp n] tally_messages_frame [OF tm]
  show ?thesis by (simp add: extremes_ok_def)
qed

lemma tally_conversation_frame:
  assumes "tally_conversation st i c = Inr st'"
  shows "stats_date st' = stats_date st \<and> num_conversations st' = num_conversations st \<and>
         participants st' = participants st"
proof -
  from assms(1) obtain d tp n where
    tm: "tally_messages (opened st i c d tp n) (messages c) = Inr st'"
    by (rule tally_conversation_InrD)
  from tally_messages_frame [OF tm] show ?thesis by (simp add: opened_fields)
qed

lemma tally_conversation_well_formed:
  assumes "tally_conversation st i c = Inr st'"
  shows "well_formed_session c"
proof -
  from assms(1) obtain d where
    "calculate_duration (start_time c) (end_time c) = Inr d" "messages c \<noteq> []"
    by (rule tally_conversation_InrD)
  then show ?thesis
    by (auto simp: well_formed_session_def timestamps_ok_def calculate_duration_def
          split: sum.splits)
qed

lemma tally_conversation_empty:
  assumes "timestamps_ok c" and "messages c = []"
  shows "tally_conversation st i c = Inl EmptySessionError"
proof -
  from assms(1) obtain s e where s: "strptime (start_time c) = Inr s"
    and e: "strptime (end_time c) = Inr e"
    by (cases "strptime (start_time c)"; cases "strptime (end_time c)")
       (auto simp: timestamps_ok_def)
  from s e obtain d where d: "calculate_duration (start_time c) (end_time c) = Inr d"
    by (simp add: calculate_duration_def)
  from categorize_of_strptime [OF s] obtain tp where
    tp: "categorize_time_period (start_time c) = Inr tp" by blast
  from d tp assms(2) show ?thesis by (simp add: tally_conversation_eq)
qed

lemma tally_conversations_Cons:
  "tally_conversations st i (c # cs) = Inr st' \<longleftrightarrow>
     (\<exists>st1. tally_conversation st i c = Inr st1 \<and> tally_conversations st1 (i + 1) cs = Inr st')"
  by (auto split: sum.splits)

lemma tally_conversations_inv:
  assumes "tally_conversations st i cs = Inr st'" and "keys_ok st" and "consistent st"
    and "extremes_ok st"
  shows "keys_ok st' \<and> consistent st' \<and> extremes_ok st' \<and>
         stats_date st' = stats_date st \<and> num_conversations st' = num_conversations st \<and>
         participants st' = participants st"
  using assms
proof (induction cs arbitrary: st i)
  case Nil
  then show ?case by simp
next
  case (Cons c cs)
  from Cons.prems(1) obtain st1 where
    c: "tally_conversation st i c = Inr st1" and
    rest: "tally_conversations st1 (i + 1) cs = Inr st'"
    unfolding tally_conversations_Cons by blast
  have k: "keys_ok st1" using c Cons.prems(2) by (rule tally_conversation_keys)
  have co: "consistent st1" using c Cons.prems(2,3) by (rule tally_conversation_consistent)
  have ex: "extremes_ok st1" using c Cons.prems(4) by (rule tally_conversation_extremes)
  have "keys_ok st' \<and> consistent st' \<and> extremes_ok st' \<and>
         stats_date st' = stats_date st1 \<and> num_conversations st' = num_conversations st1 \<and>
         participants st' = participants st1"
    using rest k co ex by (rule Cons.IH)
  with tally_conversation_frame [OF c]
  have "keys_ok st' \<and> consistent st' \<and> extremes_ok st' \<and>
         stats_date st' = stats_date st \<and> num_conversations st' = num_conversations st \<and>
         participants st' = participants st"
    by simp
  then show ?case .
qed

lemma tally_conversations_lengths:
  assumes "tally_conversations st i cs = Inr st'"
  shows "\<exists>xs. conversation_lengths st' = conversation_lengths st @ xs \<and> length xs = length cs \<and>
              (\<forall>k < length cs. summarises (i + k) (cs ! k) (xs ! k))"
  using assms
proof (induction cs arbitrary: st i)
  case Nil
  then show ?case by simp
next
  case (Cons c cs)
  from Cons.prems(1) obtain st1 where
    c: "tally_conversation st i c = Inr st1" and
    rest: "tally_conversations st1 (i + 1) cs = Inr st'"
    unfolding tally_conversations_Cons by blast
  from tally_conversation_lengths [OF c] obtain x where
    x: "conversation_lengths st1 = conversation_lengths st @ [x]" "summarises i c x" by blast
  have "\<exists>xs. conversation_lengths st' = conversation_lengths st1 @ xs \<and> length xs = length cs \<and>
              (\<forall>k < length cs. summarises (i + 1 + k) (cs ! k) (xs ! k))"
    using rest by (rule Cons.IH)
  then obtain xs where xs: "conversation_lengths st' = conversation_lengths st1 @ xs"
    "length xs = length cs" "\<forall>k < length cs. summarises (i + 1 + k) (cs ! k) (xs ! k)"
    by blast
  have "\<forall>k < length (c # cs). summarises (i + k) ((c # cs) ! k) ((x # xs) ! k)"
  proof (intro allI impI)
    fix k assume "k < length (c # cs)"
    then show "summarises (i + k) ((c # cs) ! k) ((x # xs) ! k)"
      using x(2) xs(3) by (cases k) auto
  qed
  moreover have "conversation_lengths st' = conversation_lengths st @ (x # xs)"
    using x(1) xs(1) by simp
  moreover have "length (x # xs) = length (c # cs)" using xs(2) by simp
  ultimately have "\<exists>ys. conversation_lengths st' = conversation_lengths st @ ys \<and>
      length ys = length (c # cs) \<and>
      (\<forall>k < length (c # cs). summarises (i + k) ((c # cs) ! k) (ys ! k))"
    by blast
  then show ?case .
qed

lemma tally_conversations_succeeds:
  assumes "keys_ok st" and "\<forall>c \<in> set cs. well_formed_session c"
    and "\<forall>c \<in> set cs. role ` set (messages c) \<subseteq> set (participants st)"
  shows "\<exists>st'. tally_conversations st i cs = Inr st'"
  using assms
proof (induction cs arbitrary: st i)
  case Nil
  then show ?case by simp
next
  case (Cons c cs)
  from Cons.prems have "well_formed_session c"
    "role ` set (messages c) \<subseteq> set (participants st)" by simp_all
  with Cons.prems(1) obtain st1 where c: "tally_conversation st i c = Inr st1"
    using tally_conversation_succeeds by blast
  have k: "keys_ok st1" using c Cons.prems(1) by (rule tally_conversation_keys)
  from tally_conversation_frame [OF c] have p: "participants st1 = participants st" by simp
  have "\<exists>st'. tally_conversations st1 (i + 1) cs = Inr st'"
    using k Cons.prems(2,3) unfolding p [symmetric] by (intro Cons.IH) simp_all
  with c have "\<exists>st'. tally_conversations st i (c # cs) = Inr st'"
    unfolding tally_conversations_Cons by blast
  then show ?case .
qed

lemma tally_conversations_well_formed:
  assumes "tally_conversations st i cs = Inr st'"
  shows "\<forall>c \<in> set cs. well_formed_session c"
  using assms
proof (induction cs arbitrary: st i)
  case Nil
  then show ?case by simp
next
  case (Cons c cs)
  from Cons.prems(1) obtain st1 where
    c: "tally_conversation st i c = Inr st1" and
    rest: "tally_conversations st1 (i + 1) cs = Inr st'"
    unfolding tally_conversations_Cons by blast
  from tally_conversation_well_formed [OF c] Cons.IH [OF rest]
  show ?case by simp
qed

lemma tally_conversations_append:
  "tally_conversations st i (xs @ ys) =
     (case tally_conversations st i xs of
        Inl e \<Rightarrow> Inl e
      | Inr st' \<Rightarrow> tally_conversations st' (i + length xs) ys)"
  by (induction xs arbitrary: st i) (auto split: sum.splits)

lemma with_date_simps: "with_date l (Inl e) = Inl e" "with_date l (Inr s) = Inr (s\<lparr>stats_date := l\<rparr>)"
  by (simp_all add: with_date_def)

lemma tally_messages_date:
  "tally_messages (st\<lparr>stats_date := l\<rparr>) ms
     = with_date l (tally_messages st ms)"
proof (induction ms arbitrary: st)
  case Nil
  show ?case by (simp add: with_date_simps)
next
  case (Cons m ms)
  have c: "counted (st\<lparr>stats_date := l\<rparr>) m n ls = (counted st m n ls)\<lparr>stats_date := l\<rparr>" for n ls
    by (simp add: counted_def)
  have "tally_messages (st\<lparr>stats_date := l\<rparr>) (m # ms)
     = with_date l (tally_messages st (m # ms))"
    unfolding tally_messages_Cons
    by (simp add: c Cons.IH with_date_simps split: option.splits)
  then show ?case .
qed

lemma opened_date:
  "opened (st\<lparr>stats_date := l\<rparr>) i c d tp n = (opened st i c d tp n)\<lparr>stats_date := l\<rparr>"
  by (cases "shortest_conversation st"; cases "longest_conversation st")
     (simp_all add: opened_def Let_def)

lemma tally_conversation_date:
  "tally_conversation (st\<lparr>stats_date := l\<rparr>) i c
     = with_date l (tally_conversation st i c)"
  unfolding tally_conversation_eq
  by (simp add: opened_date tally_messages_date with_date_simps
        split: sum.splits list.splits option.splits del: tally_messages.simps)

lemma tally_conversations_date:
  "tally_conversations (st\<lparr>stats_date := l\<rparr>) i cs
     = with_date l (tally_conversations st i cs)"
proof (induction cs arbitrary: st i)
  case Nil
  show ?case by (simp add: with_date_simps)
next
  case (Cons c cs)
  have "tally_conversations (st\<lparr>stats_date := l\<rparr>) i (c # cs)
     = with_date l (tally_conversations st i (c # cs))"
    by (simp add: tally_conversation_date Cons.IH with_date_simps split: sum.splits)
  then show ?case .
qed

lemma init_stats_date:
  "init_stats l \<lparr>date = x, conversations = cs\<rparr>
     = (init_stats l' \<lparr>date = y, conversations = cs\<rparr>)\<lparr>stats_date := l\<rparr>"
  by (simp add: init_stats_def detect_participants_def Let_def)

lemma get_basic_stats_date:
  "get_basic_stats \<lparr>date = Some l, conversations = cs\<rparr>
     = with_date l
         (get_basic_stats \<lparr>date = Some l', conversations = cs\<rparr>)"
  unfolding get_basic_stats_def
  by (simp add: init_stats_date [of l _ cs l' "Some l'"] tally_conversations_date)

lemma tally_conversations_stats_date:
  "tally_conversations st i cs = Inr st' \<Longrightarrow> stats_date st' = stats_date st"
proof (induction cs arbitrary: st i)
  case Nil
  then show ?case by simp
next
  case (Cons c cs)
  from Cons.prems(1) obtain st1 where
    c: "tally_conversation st i c = Inr st1" and
    rest: "tally_conversations st1 (i + 1) cs = Inr st'"
    unfolding tally_conversations_Cons by blast
  from Cons.IH [OF rest] tally_conversation_frame [OF c] show ?case by simp
qed

lemma set_detect_participants:
  "set (detect_participants d) = (\<Union>c \<in> set (conversations d). role ` set (messages c))"
  by (auto simp: detect_participants_def)

lemma distinct_detect_participants: "distinct (detect_participants d)"
  by (simp add: detect_participants_def)

lemma dom_map_of_const: "dom (map_of (map (\<lambda>p. (p, v)) ps)) = set ps"
  by (simp add: dom_map_of_conv_image_fst image_image)

lemma total_by_init: "total_by ps (map_of (map (\<lambda>p. (p, 0)) qs)) = 0"
proof -
  have "map_of (map (\<lambda>p. (p, 0::nat)) qs) p = (if p \<in> set qs then Some 0 else None)" for p
    by (induction qs) auto
  then show ?thesis by (simp add: total_by_def)
qed

lemma init_stats_ok:
  "keys_ok (init_stats l d)" "consistent (init_stats l d)" "extremes_ok (init_stats l d)"
  "conversation_lengths (init_stats l d) = []"
  "participants (init_stats l d) = detect_participants d"
  "stats_date (init_stats l d) = l"
  "num_conversations (init_stats l d) = length (conversations d)"
  by (simp_all add: init_stats_def Let_def keys_ok_def consistent_def extremes_ok_def
        dom_map_of_const distinct_detect_participants total_by_init period_total_def)

lemma roles_in_participants:
  "\<forall>c \<in> set (conversations d). role ` set (messages c) \<subseteq> set (participants (init_stats l d))"
  by (auto simp: init_stats_ok set_detect_participants)

lemma get_basic_stats_succeeds:
  assumes "date d = Some l" and "\<forall>c \<in> set (conversations d). well_formed_session c"
  shows "\<exists>st. get_basic_stats d = Inr st"
  using assms tally_conversations_succeeds [OF init_stats_ok(1) assms(2) roles_in_participants]
  by (simp add: get_basic_stats_def)

lemma get_basic_stats_InrD:
  assumes "get_basic_stats d = Inr st"
  obtains l where "date d = Some l"
    "tally_conversations (init_stats l d) 0 (conversations d) = Inr st"
  using assms by (auto simp: get_basic_stats_def split: option.splits)

lemma example_ok: "\<forall>c \<in> set example_sessions. well_formed_session c"
  by code_simp

lemma get_basic_stats_inv:
  assumes "get_basic_stats d = Inr st"
  shows "keys_ok st" "consistent st" "extremes_ok st"
    "num_conversations st = length (conversations d)"
    "length (conversation_lengths st) = length (conversations d)"
    "\<forall>k < length (conversations d). summarises k (conversations d ! k) (conversation_lengths st ! k)"
    "\<forall>c \<in> set (conversations d). well_formed_session c"
    "date d = Some (stats_date st)"
proof -
  from assms obtain l where l: "date d = Some l"
    and t: "tally_conversations (init_stats l d) 0 (conversations d) = Inr st"
    by (rule get_basic_stats_InrD)
  from tally_conversations_inv [OF t init_stats_ok(1,2,3)]
  show "keys_ok st" "consistent st" "extremes_ok st"
    "num_conversations st = length (conversations d)"
    by (simp_all add: init_stats_ok)
  from tally_conversations_inv [OF t init_stats_ok(1,2,3)] l
  show "date d = Some (stats_date st)" by (simp add: init_stats_ok)
  from tally_conversations_lengths [OF t]
  show "length (conversation_lengths st) = length (conversations d)"
    "\<forall>k < length (conversations d). summarises k (conversations d ! k) (conversation_lengths st ! k)"
    by (auto simp: init_stats_ok)
  from t show "\<forall>c \<in> set (conversations d). well_formed_session c"
    by (rule tally_conversations_well_formed)
qed

lemma map_message_count:
  assumes "length xs = length cs" and "\<forall>k < length cs. summarises k (cs ! k) (xs ! k)"
  shows "map message_count xs = map (\<lambda>c. length (messages c)) cs"
  using assms by (auto simp: list_eq_iff_nth_eq summarises_def)

lemma get_basic_stats_first_empty:
  assumes "date d = Some l" and "conversations d = pre @ c # post"
    and "\<forall>x \<in> set pre. well_formed_session x" and "timestamps_ok c" and "messages c = []"
  shows "get_basic_stats d = Inl EmptySessionError"
proof -
  have "\<forall>x \<in> set pre. role ` set (messages x) \<subseteq> set (participants (init_stats l d))"
    using roles_in_participants [of d l] assms(2) by simp
  with tally_conversations_succeeds [OF init_stats_ok(1) assms(3)]
  obtain st1 where "tally_conversations (init_stats l d) 0 pre = Inr st1" by blast
  with assms(1,2) tally_conversation_empty [OF assms(4,5)] show ?thesis
    by (simp add: get_basic_stats_def tally_conversations_append)
qed

lemma first_least_unique: "first_least ns i \<Longrightarrow> first_least ns j \<Longrightarrow> i = j"
  unfolding first_least_def by (metis linorder_neqE_nat not_le)

lemma first_greatest_unique: "first_greatest ns i \<Longrightarrow> first_greatest ns j \<Longrightarrow> i = j"
  unfolding first_greatest_def by (metis linorder_neqE_nat not_le)

lemma tied_counts: "map (\<lambda>c. length (messages c)) (conversations tied_log) = [2, 1, 1, 2]"
  by (simp add: tied_log_def example_sessions_def)

lemma tied_first: "first_least [2, 1, 1, 2] 1" "first_greatest [2, 1, 1, 2] 0"
  by (auto simp: first_least_def first_greatest_def nth_Cons split: nat.splits)

text \<open>
  C2. A bare list of sessions and the same list in a dictionary with a label are both
  accepted, and the aggregator gives the same result for the two logs but for the label:
  the same error, or statistics that differ in \<^verbatim>\<open>date\<close> alone. For well-formed sessions
  both runs return statistics.
\<close>

theorem format_equivalence:
  "\<exists>a b. load_conversation_file fp (RawList cs) = Inr a \<and>
         load_conversation_file fp' (RawDict (Some l) (Some cs)) = Inr b \<and>
         conversations a = cs \<and> conversations b = cs \<and>
         get_basic_stats b = with_date l (get_basic_stats a) \<and>
         ((\<forall>c \<in> set cs. well_formed_session c) \<longrightarrow>
            (\<exists>s t. get_basic_stats a = Inr s \<and> get_basic_stats b = Inr t \<and>
                   t = s\<lparr>stats_date := l\<rparr>))"
proof -
  obtain l' where a: "load_conversation_file fp (RawList cs)
      = Inr \<lparr>date = Some l', conversations = cs\<rparr>"
    using load_list [of fp cs] by blast
  have b: "load_conversation_file fp' (RawDict (Some l) (Some cs))
      = Inr \<lparr>date = Some l, conversations = cs\<rparr>"
    by (simp add: load_conversation_file_def)
  have e: "get_basic_stats \<lparr>date = Some l, conversations = cs\<rparr>
      = with_date l (get_basic_stats \<lparr>date = Some l', conversations = cs\<rparr>)"
    by (rule get_basic_stats_date)
  have "\<exists>s t. get_basic_stats \<lparr>date = Some l', conversations = cs\<rparr> = Inr s \<and>
      get_basic_stats \<lparr>date = Some l, conversations = cs\<rparr> = Inr t \<and> t = s\<lparr>stats_date := l\<rparr>"
    if "\<forall>c \<in> set cs. well_formed_session c"
  proof -
    from that obtain s where "get_basic_stats \<lparr>date = Some l', conversations = cs\<rparr> = Inr s"
      using get_basic_stats_succeeds [of "\<lparr>date = Some l', conversations = cs\<rparr>" l'] by auto
    with e show ?thesis by (simp add: with_date_simps)
  qed
  with a b e show ?thesis by (intro exI [of _ "\<lparr>date = Some l', conversations = cs\<rparr>"]
      exI [of _ "\<lparr>date = Some l, conversations = cs\<rparr>"]) simp
qed

theorem format_equivalence_witness:
  "list_all well_formed_session example_sessions \<and>
   (\<exists>a b s t. load_conversation_file ''chat.json'' (RawList example_sessions) = Inr a \<and>
      load_conversation_file ''chat.json'' (RawDict (Some ''2025-10-30'') (Some example_sessions)) = Inr b \<and>
      get_basic_stats a = Inr s \<and> get_basic_stats b = Inr t \<and>
      t = s\<lparr>stats_date := ''2025-10-30''\<rparr>)"
proof -
  have wf: "\<forall>c \<in> set example_sessions. well_formed_session c" by code_simp
  with format_equivalence [of "''chat.json''" example_sessions "''chat.json''" "''2025-10-30''"]
  show ?thesis unfolding list_all_iff by blast
qed

text \<open>
  C5, as stated, fails: the duration is computed before the first speaker is looked up, so
  a log whose only session has no message and a start time that does not parse fails with
  the error of the time parser, not with \<open>EmptySessionError\<close>.
\<close>

theorem get_basic_stats_empty_session_counterexample:
  "get_basic_stats \<lparr>date = Some ''2025-10-30'', conversations =
     [\<lparr>messages = [], start_time = ''25:00'', end_time = ''03:05 PM''\<rparr>]\<rparr>
   = Inl TimestampParseError"
proof -
  have "calculate_duration ''25:00'' ''03:05 PM'' = Inl TimestampParseError" by code_simp
  then show ?thesis by (simp add: get_basic_stats_def tally_conversation_eq)
qed

text \<open>
  C5, amended. When the label is present, the sessions before the first empty one are
  well-formed and the timestamps of that session parse, the aggregator fails with
  \<open>EmptySessionError\<close>. Whatever the timestamps and the label are, a log with an empty
  session produces an error and no statistics: no empty session is skipped.
\<close>

theorem get_basic_stats_empty_session:
  "(date d = Some l \<and> conversations d = pre @ c # post \<and>
    (\<forall>x \<in> set pre. well_formed_session x) \<and> timestamps_ok c \<and> messages c = []
      \<longrightarrow> get_basic_stats d = Inl EmptySessionError) \<and>
   ((\<exists>x \<in> set (conversations d). messages x = []) \<longrightarrow> (\<exists>e. get_basic_stats d = Inl e))"
proof (intro conjI impI)
  assume "date d = Some l \<and> conversations d = pre @ c # post \<and>
    (\<forall>x \<in> set pre. well_formed_session x) \<and> timestamps_ok c \<and> messages c = []"
  then show "get_basic_stats d = Inl EmptySessionError"
    using get_basic_stats_first_empty [of d l pre c post] by blast
next
  assume e: "\<exists>x \<in> set (conversations d). messages x = []"
  show "\<exists>e. get_basic_stats d = Inl e"
  proof (cases "get_basic_stats d")
    case (Inl e)
    then show ?thesis by blast
  next
    case (Inr st)
    from get_basic_stats_inv(7) [OF Inr] e show ?thesis
      by (auto simp: well_formed_session_def)
  qed
qed

theorem get_basic_stats_empty_session_witness:
  "date (example_log\<lparr>conversations := example_sessions @ [empty_session]\<rparr>) = Some ''2025-10-30'' \<and>
   list_all well_formed_session example_sessions \<and>
   timestamps_ok empty_session \<and> messages empty_session = [] \<and>
   get_basic_stats (example_log\<lparr>conversations := example_sessions @ [empty_session]\<rparr>)
     = Inl EmptySessionError"
proof -
  let ?d = "example_log\<lparr>conversations := example_sessions @ [empty_session]\<rparr>"
  have a: "date ?d = Some ''2025-10-30''" "conversations ?d = example_sessions @ empty_session # []"
    by (simp_all add: example_log_def)
  have b: "\<forall>x \<in> set example_sessions. well_formed_session x" by code_simp
  have c: "timestamps_ok empty_session" "messages empty_session = []" by code_simp+
  from get_basic_stats_empty_session [of ?d "''2025-10-30''" example_sessions empty_session "[]"]
    a b c
  show ?thesis unfolding list_all_iff by blast
qed

lemma extremes_of_stats:
  "get_basic_stats d = Inr st \<and> conversations d \<noteq> [] \<longrightarrow>
     (\<exists>i. first_least (map (\<lambda>c. length (messages c)) (conversations d)) i \<and>
          shortest_conversation st = Some (conversation_lengths st ! i) \<and>
          summarises i (conversations d ! i) (conversation_lengths st ! i)) \<and>
     (\<exists>j. first_greatest (map (\<lambda>c. length (messages c)) (conversations d)) j \<and>
          longest_conversation st = Some (conversation_lengths st ! j) \<and>
          summarises j (conversations d ! j) (conversation_lengths st ! j))"
proof
  assume "get_basic_stats d = Inr st \<and> conversations d \<noteq> []"
  then have a: "get_basic_stats d = Inr st" and ne: "conversations d \<noteq> []" by simp_all
  note inv = get_basic_stats_inv [OF a]
  let ?ns = "map (\<lambda>c. length (messages c)) (conversations d)"
  have ns: "map message_count (conversation_lengths st) = ?ns"
    using inv(5,6) by (rule map_message_count)
  from inv(5) ne have "conversation_lengths st \<noteq> []" by auto
  with inv(3) obtain i j where
    i: "first_least ?ns i" "shortest_conversation st = Some (conversation_lengths st ! i)" and
    j: "first_greatest ?ns j" "longest_conversation st = Some (conversation_lengths st ! j)"
    unfolding extremes_ok_def ns by auto
  from i(1) j(1) have "i < length (conversations d)" "j < length (conversations d)"
    by (simp_all add: first_least_def first_greatest_def)
  with inv(6) have "summarises i (conversations d ! i) (conversation_lengths st ! i)"
    "summarises j (conversations d ! j) (conversation_lengths st ! j)" by simp_all
  with i j show "(\<exists>i. first_least ?ns i \<and>
          shortest_conversation st = Some (conversation_lengths st ! i) \<and>
          summarises i (conversations d ! i) (conversation_lengths st ! i)) \<and>
     (\<exists>j. first_greatest ?ns j \<and>
          longest_conversation st = Some (conversation_lengths st ! j) \<and>
          summarises j (conversations d ! j) (conversation_lengths st ! j))"
    by blast
qed

text \<open>
  C9. In the statistics of a log with at least one session, \<^verbatim>\<open>shortest_conversation\<close>
  is the summary of the first session, in the order of the input, whose number of
  messages is the least: every session has at least as many messages and every earlier
  one has more. \<^verbatim>\<open>longest_conversation\<close> is the summary of the first session whose
  number of messages is the greatest. A later session with the same number never takes
  the place of the stored one. Statistics are returned for every log that has a label and
  whose sessions are well-formed.
\<close>

theorem get_basic_stats_extremes:
  "(get_basic_stats d = Inr st \<and> conversations d \<noteq> [] \<longrightarrow>
     (\<exists>i. first_least (map (\<lambda>c. length (messages c)) (conversations d)) i \<and>
          shortest_conversation st = Some (conversation_lengths st ! i) \<and>
          summarises i (conversations d ! i) (conversation_lengths st ! i)) \<and>
     (\<exists>j. first_greatest (map (\<lambda>c. length (messages c)) (conversations d)) j \<and>
          longest_conversation st = Some (conversation_lengths st ! j) \<and>
          summarises j (conversations d ! j) (conversation_lengths st ! j))) \<and>
   (date d \<noteq> None \<and> (\<forall>c \<in> set (conversations d). well_formed_session c) \<longrightarrow>
      (\<exists>s. get_basic_stats d = Inr s))"
  using extremes_of_stats [of d st] get_basic_stats_succeeds [of d] by auto

theorem get_basic_stats_extremes_witness:
  "\<exists>st x y. get_basic_stats tied_log = Inr st \<and> conversations tied_log \<noteq> [] \<and>
     map (\<lambda>c. length (messages c)) (conversations tied_log) = [2, 1, 1, 2] \<and>
     shortest_conversation st = Some x \<and> index x = 2 \<and> message_count x = 1 \<and>
     longest_conversation st = Some y \<and> index y = 1 \<and> message_count y = 2"
proof -
  have wf: "\<forall>c \<in> set (conversations tied_log). well_formed_session c" by code_simp
  have "date tied_log = Some ''2025-10-30''" by (simp add: tied_log_def)
  from get_basic_stats_succeeds [OF this wf] obtain st where st: "get_basic_stats tied_log = Inr st" ..
  have ne: "conversations tied_log \<noteq> []" by (simp add: tied_log_def example_sessions_def)
  from get_basic_stats_extremes [of tied_log st] st ne obtain i j where
    i: "first_least [2, 1, 1, 2] i" "shortest_conversation st = Some (conversation_lengths st ! i)"
      "summarises i (conversations tied_log ! i) (conversation_lengths st ! i)" and
    j: "first_greatest [2, 1, 1, 2] j" "longest_conversation st = Some (conversation_lengths st ! j)"
      "summarises j (conversations tied_log ! j) (conversation_lengths st ! j)"
    unfolding tied_counts by blast
  from i(1) tied_first(1) have i1: "i = 1" by (rule first_least_unique)
  from j(1) tied_first(2) have j0: "j = 0" by (rule first_greatest_unique)
  from i(3) have "index (conversation_lengths st ! i) = 2"
    "message_count (conversation_lengths st ! i) = 1"
    unfolding i1 by (simp_all add: summarises_def tied_log_def example_sessions_def)
  moreover from j(3) have "index (conversation_lengths st ! j) = 1"
    "message_count (conversation_lengths st ! j) = 2"
    unfolding j0 by (simp_all add: summarises_def tied_log_def example_sessions_def)
  ultimately show ?thesis using st ne tied_counts i(2) j(2)
    by (intro exI [of _ st] exI [of _ "conversation_lengths st ! i"]
          exI [of _ "conversation_lengths st ! j"]) simp
qed

text \<open>
  C10. Whenever the aggregator returns statistics, the four period totals add up to
  \<^verbatim>\<open>total_messages\<close>, the message counts of the participants add up to
  \<^verbatim>\<open>total_messages\<close>, and their counts of conversations started add up to the number
  of conversations; the participants are listed once each and are exactly the keys of
  both dictionaries, so the sums leave no entry out. The aggregator returns statistics
  exactly when the label is present and every session is well-formed.
\<close>

theorem get_basic_stats_consistent:
  "(get_basic_stats d = Inr st \<longrightarrow>
      time_periods st Morning + time_periods st Afternoon + time_periods st Evening
        + time_periods st Night = total_messages st \<and>
      total_by (participants st) (messages_by_participant st) = total_messages st \<and>
      total_by (participants st) (conversations_started_by st) = length (conversations d) \<and>
      num_conversations st = length (conversations d) \<and>
      distinct (participants st) \<and>
      dom (messages_by_participant st) = set (participants st) \<and>
      dom (conversations_started_by st) = set (participants st)) \<and>
   ((\<exists>s. get_basic_stats d = Inr s) \<longleftrightarrow>
      date d \<noteq> None \<and> (\<forall>c \<in> set (conversations d). well_formed_session c))"
proof (intro conjI impI)
  assume a: "get_basic_stats d = Inr st"
  note inv = get_basic_stats_inv [OF a]
  from inv(2) show "time_periods st Morning + time_periods st Afternoon + time_periods st Evening
        + time_periods st Night = total_messages st"
    by (simp add: consistent_def period_total_def)
  from inv(2) show "total_by (participants st) (messages_by_participant st) = total_messages st"
    by (simp add: consistent_def)
  from inv(2,5) show "total_by (participants st) (conversations_started_by st)
      = length (conversations d)"
    by (simp add: consistent_def)
  from inv(4) show "num_conversations st = length (conversations d)" .
  from inv(1) show "distinct (participants st)"
    "dom (messages_by_participant st) = set (participants st)"
    "dom (conversations_started_by st) = set (participants st)"
    by (simp_all add: keys_ok_def)
next
  show "(\<exists>s. get_basic_stats d = Inr s) \<longleftrightarrow>
      date d \<noteq> None \<and> (\<forall>c \<in> set (conversations d). well_formed_session c)"
  proof
    assume "\<exists>s. get_basic_stats d = Inr s"
    then obtain s where s: "get_basic_stats d = Inr s" ..
    from get_basic_stats_inv(7,8) [OF s]
    show "date d \<noteq> None \<and> (\<forall>c \<in> set (conversations d). well_formed_session c)" by simp
  next
    assume "date d \<noteq> None \<and> (\<forall>c \<in> set (conversations d). well_formed_session c)"
    then show "\<exists>s. get_basic_stats d = Inr s"
      using get_basic_stats_succeeds [of d] by auto
  qed
qed

theorem get_basic_stats_consistent_witness:
  "date example_log \<noteq> None \<and> list_all well_formed_session (conversations example_log) \<and>
   (\<exists>st. get_basic_stats example_log = Inr st \<and> total_messages st = 3 \<and>
     time_periods st Morning + time_periods st Afternoon + time_periods st Evening
        + time_periods st Night = 3 \<and>
     total_by (participants st) (messages_by_participant st) = 3 \<and>
     total_by (participants st) (conversations_started_by st) = 2 \<and>
     num_conversations st = 2)"
proof -
  have wf: "\<forall>c \<in> set (conversations example_log). well_formed_session c" by code_simp
  have dt: "date example_log \<noteq> None" by (simp add: example_log_def)
  have ev: "case get_basic_stats example_log of Inl e \<Rightarrow> False | Inr st \<Rightarrow> total_messages st = 3"
    by code_simp
  then obtain st where st: "get_basic_stats example_log = Inr st" and tm: "total_messages st = 3"
    by (cases "get_basic_stats example_log") auto
  have len: "length (conversations example_log) = 2"
    by (simp add: example_log_def example_sessions_def)
  from get_basic_stats_consistent [of example_log st] st tm len wf dt show ?thesis
    unfolding list_all_iff by auto
qed

section \<open>Properties of the topic extractor\<close>

lemma count_words_fold:
  "count_words U wc ws = fold count_word (filter counted_word (map (clean U) ws)) wc"
  by (induction ws arbitrary: wc) (simp_all add: Let_def counted_word_def)

lemma count_messages_fold:
  "count_messages U wc ms =
     fold count_word
       (filter counted_word (map (clean U)
          (concat (map (\<lambda>m. split_whitespace U (lower U (content_str (content m)))) ms)))) wc"
  by (induction ms arbitrary: wc) (simp_all add: count_words_fold)

lemma count_conversations_fold:
  "count_conversations U wc cs =
     fold count_word
       (filter counted_word (map (clean U)
          (concat (map (\<lambda>m. split_whitespace U (lower U (content_str (content m))))
                     (concat (map messages cs)))))) wc"
  by (induction cs arbitrary: wc) (simp_all add: count_messages_fold)

lemma count_conversations_kept:
  "count_conversations U [] (conversations d) = fold count_word (kept_tokens U d) []"
  by (simp add: count_conversations_fold kept_tokens_def raw_tokens_def lowered_def comp_def)

lemma count_word_new: "w \<notin> fst ` set wc \<Longrightarrow> count_word w wc = wc @ [(w, 1)]"
  by (induction wc) auto

lemma count_word_old:
  "distinct (map fst wc) \<Longrightarrow> w \<in> fst ` set wc \<Longrightarrow>
   count_word w wc = map (\<lambda>(k, n). (k, if k = w then n + 1 else n)) wc"
proof (induction wc)
  case Nil
  then show ?case by simp
next
  case (Cons p wc)
  obtain k n where p: "p = (k, n)" by (cases p)
  show ?case
  proof (cases "k = w")
    case True
    with Cons.prems p have "w \<notin> fst ` set wc" by auto
    then have "map (\<lambda>(k, n). (k, if k = w then n + 1 else n)) wc = wc"
      by (induction wc) auto
    with True p show ?thesis by simp
  next
    case False
    with Cons p show ?thesis by auto
  qed
qed

lemma filter_removeAll_skip: "\<not> P x \<Longrightarrow> filter P (removeAll x ys) = filter P ys"
  by (induction ys) auto

lemma filter_new_snoc:
  "filter (\<lambda>w. w \<notin> fst ` set (wc @ [(x, n)])) ys
     = filter (\<lambda>w. w \<notin> fst ` set wc) (removeAll x ys)"
  by (induction ys) auto

lemma fold_count_word:
  "distinct (map fst wc) \<Longrightarrow>
   fold count_word xs wc =
     map (\<lambda>(k, n). (k, n + count_list xs k)) wc @
     map (\<lambda>w. (w, count_list xs w)) (filter (\<lambda>w. w \<notin> fst ` set wc) (first_seen xs))"
proof (induction xs arbitrary: wc)
  case Nil
  then show ?case by simp
next
  case (Cons x xs)
  let ?new = "\<lambda>w. w \<notin> fst ` set wc"
  have "fold count_word (x # xs) wc =
      map (\<lambda>(k, n). (k, n + count_list (x # xs) k)) wc @
      map (\<lambda>w. (w, count_list (x # xs) w)) (filter ?new (first_seen (x # xs)))"
  proof (cases "x \<in> fst ` set wc")
    case True
    let ?wc = "map (\<lambda>(k, n). (k, if k = x then n + 1 else n)) wc"
    have cw: "count_word x wc = ?wc" using Cons.prems True by (rule count_word_old)
    have keys: "map fst ?wc = map fst wc" by (induction wc) auto
    then have keys': "fst ` set ?wc = fst ` set wc" by (metis set_map)
    from Cons.prems have "distinct (map fst ?wc)" unfolding keys .
    then have "fold count_word xs ?wc =
       map (\<lambda>(k, n). (k, n + count_list xs k)) ?wc @
       map (\<lambda>w. (w, count_list xs w)) (filter (\<lambda>w. w \<notin> fst ` set ?wc) (first_seen xs))"
      by (rule Cons.IH)
    then have ih: "fold count_word xs ?wc =
       map (\<lambda>(k, n). (k, n + count_list xs k)) ?wc @
       map (\<lambda>w. (w, count_list xs w)) (filter ?new (first_seen xs))"
      unfolding keys' .
    have e1: "map (\<lambda>(k, n). (k, n + count_list xs k)) ?wc
        = map (\<lambda>(k, n). (k, n + count_list (x # xs) k)) wc"
      by (induction wc) auto
    have "filter ?new (first_seen (x # xs)) = filter ?new (removeAll x (first_seen xs))"
      using True by simp
    also have "\<dots> = filter ?new (first_seen xs)"
      using True by (intro filter_removeAll_skip) simp
    finally have e2: "filter ?new (first_seen (x # xs)) = filter ?new (first_seen xs)" .
    have e3: "map (\<lambda>w. (w, count_list xs w)) (filter ?new (first_seen xs))
        = map (\<lambda>w. (w, count_list (x # xs) w)) (filter ?new (first_seen xs))"
      using True by (intro map_cong) auto
    have "fold count_word (x # xs) wc = fold count_word xs ?wc" by (simp add: cw)
    then show ?thesis unfolding ih e1 e2 e3 .
  next
    case False
    let ?wc = "wc @ [(x, 1)]"
    have cw: "count_word x wc = ?wc" using False by (rule count_word_new)
    from Cons.prems False have "distinct (map fst ?wc)" by (auto simp: image_iff)
    then have ih: "fold count_word xs ?wc =
       map (\<lambda>(k, n). (k, n + count_list xs k)) ?wc @
       map (\<lambda>w. (w, count_list xs w)) (filter (\<lambda>w. w \<notin> fst ` set ?wc) (first_seen xs))"
      by (rule Cons.IH)
    have e1: "map (\<lambda>(k, n). (k, n + count_list xs k)) ?wc
        = map (\<lambda>(k, n). (k, n + count_list (x # xs) k)) wc @ [(x, count_list (x # xs) x)]"
      using False by (auto simp: image_iff intro!: map_cong)
    have e2: "filter (\<lambda>w. w \<notin> fst ` set ?wc) (first_seen xs)
        = filter ?new (removeAll x (first_seen xs))"
      by (rule filter_new_snoc)
    have e3: "map (\<lambda>w. (w, count_list xs w)) (filter ?new (removeAll x (first_seen xs)))
        = map (\<lambda>w. (w, count_list (x # xs) w)) (filter ?new (removeAll x (first_seen xs)))"
      by (intro map_cong) auto
    have e4: "filter ?new (first_seen (x # xs)) = x # filter ?new (removeAll x (first_seen xs))"
      using False by simp
    have "fold count_word (x # xs) wc = fold count_word xs ?wc" by (simp add: cw)
    then show ?thesis unfolding ih e1 e2 e3 e4 by simp
  qed
  then show ?case .
qed

lemma fold_count_word_Nil:
  "fold count_word xs [] = map (\<lambda>w. (w, count_list xs w)) (first_seen xs)"
  using fold_count_word [of "[]" xs] by simp

lemma sorted_reverse_mset: "mset (sorted_reverse xs) = mset xs"
  by (simp add: sorted_reverse_def)

lemma sorted_reverse_set: "set (sorted_reverse xs) = set xs"
  by (simp add: sorted_reverse_def)

lemma sorted_reverse_sorted: "sorted_wrt (\<lambda>a b. snd b \<le> snd a) (sorted_reverse xs)"
proof -
  have "sorted (map snd (sort_key snd (rev xs)))" by (rule sorted_sort_key)
  then have "sorted_wrt (\<lambda>a b. snd a \<le> snd b) (sort_key snd (rev xs))"
    by (simp add: sorted_map)
  then show ?thesis by (simp add: sorted_reverse_def sorted_wrt_rev)
qed

lemma sorted_reverse_stable:
  "filter (\<lambda>e. snd e = c) (sorted_reverse xs) = filter (\<lambda>e. snd e = c) xs"
proof -
  have "filter (\<lambda>e. snd e = c) (sorted_reverse xs)
      = rev (filter (\<lambda>e. snd e = c) (sort_key snd (rev xs)))"
    by (simp add: sorted_reverse_def rev_filter)
  also have "\<dots> = rev (filter (\<lambda>e. snd e = c) (rev xs))"
    by (simp only: sort_key_stable)
  also have "\<dots> = filter (\<lambda>e. snd e = c) xs" by (simp add: rev_filter)
  finally show ?thesis .
qed

lemma word_counts_kept:
  "count_conversations U [] (conversations d)
     = map (\<lambda>w. (w, count_list (kept_tokens U d) w)) (first_seen (kept_tokens U d))"
  by (simp add: count_conversations_kept fold_count_word_Nil)

lemma set_first_seen: "set (first_seen xs) = set xs"
  by (induction xs) auto

lemma distinct_first_seen: "distinct (first_seen xs)"
  by (induction xs) (auto simp: distinct_removeAll)

lemma set_slice_to: "set (slice_to n xs) \<subseteq> set xs"
  by (simp add: slice_to_def set_take_subset)

lemma count_list_filter: "P w \<Longrightarrow> count_list (filter P xs) w = count_list xs w"
  by (induction xs) auto

lemma count_list_pos: "w \<in> set xs \<Longrightarrow> 1 \<le> count_list xs w"
  by (induction xs) auto

lemma split_acc_chars: "r \<in> set (split_acc U cur s) \<Longrightarrow> set r \<subseteq> set cur \<union> set s"
proof (induction s arbitrary: cur)
  case Nil
  then show ?case by (simp split: if_splits)
next
  case (Cons a s)
  have "set r \<subseteq> set cur \<union> set (a # s)"
  proof (cases "isspace U a")
    case True
    with Cons.prems have "r = cur \<or> r \<in> set (split_acc U [] s)" by (simp split: if_splits)
    then show ?thesis
    proof
      assume "r = cur"
      then show ?thesis by auto
    next
      assume "r \<in> set (split_acc U [] s)"
      then have "set r \<subseteq> set [] \<union> set s" by (rule Cons.IH)
      then show ?thesis by auto
    qed
  next
    case False
    with Cons.prems have "r \<in> set (split_acc U (cur @ [a]) s)" by simp
    then have "set r \<subseteq> set (cur @ [a]) \<union> set s" by (rule Cons.IH)
    then show ?thesis by auto
  qed
  then show ?case .
qed

lemma raw_token_chars:
  assumes "r \<in> set (raw_tokens U d)"
  shows "\<exists>s \<in> set (lowered U d). set r \<subseteq> set s"
proof -
  from assms obtain s where s: "s \<in> set (lowered U d)" "r \<in> set (split_whitespace U s)"
    by (auto simp: raw_tokens_def)
  from s(2) have "set r \<subseteq> set s"
    using split_acc_chars [of r U "[]" s] by (simp add: split_whitespace_def)
  with s(1) show ?thesis by blast
qed

lemma extract_topics_kept:
  "extract_topics U d n =
     slice_to n (sorted_reverse
       (map (\<lambda>w. (w, count_list (kept_tokens U d) w)) (first_seen (kept_tokens U d))))"
  by (simp add: extract_topics_def Let_def word_counts_kept)

lemma extract_topics_entries:
  assumes "(w, c) \<in> set (extract_topics U d n)"
  shows "3 \<le> length w \<and> w \<notin> set stop_words \<and> (\<forall>ch \<in> set w. isalnum U ch) \<and>
         1 \<le> c \<and> c = count_list (map (clean U) (raw_tokens U d)) w"
proof -
  let ?items = "map (\<lambda>w. (w, count_list (kept_tokens U d) w)) (first_seen (kept_tokens U d))"
  from assms have "(w, c) \<in> set (slice_to n (sorted_reverse ?items))"
    by (simp only: extract_topics_kept)
  with set_slice_to have "(w, c) \<in> set (sorted_reverse ?items)"
    by (rule subsetD)
  then have "(w, c) \<in> set ?items"
    by (simp only: sorted_reverse_set)
  then have w: "w \<in> set (kept_tokens U d)" and c: "c = count_list (kept_tokens U d) w"
    by (auto simp: set_first_seen)
  from w have cw: "counted_word w" and "w \<in> clean U ` set (raw_tokens U d)"
    by (auto simp: kept_tokens_def)
  then obtain r where r: "r \<in> set (raw_tokens U d)" "w = clean U r" by blast
  from r(2) have "\<forall>ch \<in> set w. isalnum U ch"
    by (simp add: clean_def)
  moreover from cw have "3 \<le> length w" "w \<notin> set stop_words"
    by (auto simp: counted_word_def)
  moreover from count_list_pos [OF w] c have "1 \<le> c" by simp
  moreover from c cw have "c = count_list (map (clean U) (raw_tokens U d)) w"
    by (simp add: kept_tokens_def count_list_filter)
  ultimately show ?thesis by blast
qed

lemma extract_topics_lowered:
  assumes "lowered U d' = lowered U d"
  shows "extract_topics U d' n = extract_topics U d n"
proof -
  from assms have "kept_tokens U d' = kept_tokens U d"
    by (simp add: kept_tokens_def raw_tokens_def)
  then show ?thesis by (simp only: extract_topics_kept)
qed

lemma split_acc_cong:
  "\<forall>c \<in> set s. isspace U c = isspace V c \<Longrightarrow> split_acc U cur s = split_acc V cur s"
  by (induction s arbitrary: cur) simp_all

lemma clean_cong: "\<forall>c \<in> set r. isalnum U c = isalnum V c \<Longrightarrow> clean U r = clean V r"
  unfolding clean_def by (rule filter_cong) simp_all

lemma kept_tokens_cong:
  assumes l: "lowered U d = lowered V d"
    and a: "\<forall>s \<in> set (lowered V d). \<forall>c \<in> set s. isspace U c = isspace V c \<and> isalnum U c = isalnum V c"
  shows "kept_tokens U d = kept_tokens V d"
proof -
  have "map (split_whitespace U) (lowered V d) = map (split_whitespace V) (lowered V d)"
  proof (rule map_cong)
    fix s assume "s \<in> set (lowered V d)"
    with a have "\<forall>c \<in> set s. isspace U c = isspace V c" by blast
    then show "split_whitespace U s = split_whitespace V s"
      unfolding split_whitespace_def by (rule split_acc_cong)
  qed simp
  then have r: "raw_tokens U d = raw_tokens V d" by (simp only: raw_tokens_def l)
  have "map (clean U) (raw_tokens V d) = map (clean V) (raw_tokens V d)"
  proof (rule map_cong)
    fix r assume "r \<in> set (raw_tokens V d)"
    then obtain s where "s \<in> set (lowered V d)" "set r \<subseteq> set s"
      using raw_token_chars by blast
    with a have "\<forall>c \<in> set r. isalnum U c = isalnum V c" by blast
    then show "clean U r = clean V r" by (rule clean_cong)
  qed simp
  then show ?thesis by (simp only: kept_tokens_def r)
qed

lemma extract_topics_agree:
  assumes ag: "agree_below k U V"
    and t: "\<forall>s \<in> set (texts d). \<forall>c \<in> set s. c < k"
    and l: "\<forall>s \<in> set (lowered V d). \<forall>c \<in> set s. c < k"
  shows "extract_topics U d n = extract_topics V d n"
proof -
  have "lowered U d = lowered V d"
    unfolding lowered_def
  proof (rule map_cong)
    fix m assume "m \<in> set (concat (map messages (conversations d)))"
    then have "content_str (content m) \<in> set (texts d)" by (simp add: texts_def)
    with t have "\<forall>c \<in> set (content_str (content m)). c < k" by blast
    with ag show "lower U (content_str (content m)) = lower V (content_str (content m))"
      by (simp add: agree_below_def)
  qed simp
  moreover from ag l
  have "\<forall>s \<in> set (lowered V d). \<forall>c \<in> set s. isspace U c = isspace V c \<and> isalnum U c = isalnum V c"
    by (simp add: agree_below_def)
  ultimately have "kept_tokens U d = kept_tokens V d" by (rule kept_tokens_cong)
  then show ?thesis by (simp only: extract_topics_kept)
qed

lemma topic_example_latin1:
  "extract_topics latin1 topic_example 15
     = [(code_points ''cat'', 1), (code_points ''sat'', 1), (code_points ''mat'', 1),
        (code_points ''dog'', 1), (code_points ''ran'', 1)]"
  by code_simp

lemma topic_example_ascii:
  "list_all (list_all (\<lambda>c. c < 128)) (texts topic_example)"
  "list_all (list_all (\<lambda>c. c < 128)) (lowered latin1 topic_example)"
  by code_simp+

text \<open>
  C8. Whatever the Unicode tables are, every entry of the result of the topic extractor is
  a word of at least three characters that is not a stop word and consists of
  alphanumeric characters, and its count is the number of words of the lower-cased texts,
  split at whitespace, whose clean form it is. The count ignores case: two logs whose
  texts are the same in lower case have the same result. With tables that are the ASCII
  ones on ASCII text, as Python's are, the one message of the specification's example
  gives \<^verbatim>\<open>cat\<close>, \<^verbatim>\<open>sat\<close>, \<^verbatim>\<open>mat\<close>, \<^verbatim>\<open>dog\<close> and \<^verbatim>\<open>ran\<close>, once each, and nothing else.
\<close>

theorem extract_topics_filtered:
  "(\<forall>(w, c) \<in> set (extract_topics U d n).
      3 \<le> length w \<and> w \<notin> set stop_words \<and> (\<forall>ch \<in> set w. isalnum U ch) \<and>
      1 \<le> c \<and> c = count_list (map (clean U) (raw_tokens U d)) w) \<and>
   (lowered U d' = lowered U d \<longrightarrow> extract_topics U d' n = extract_topics U d n) \<and>
   (agree_below 128 U latin1 \<longrightarrow>
      extract_topics U topic_example 15
        = [(code_points ''cat'', 1), (code_points ''sat'', 1), (code_points ''mat'', 1),
           (code_points ''dog'', 1), (code_points ''ran'', 1)])"
proof (intro conjI impI)
  show "\<forall>(w, c) \<in> set (extract_topics U d n).
      3 \<le> length w \<and> w \<notin> set stop_words \<and> (\<forall>ch \<in> set w. isalnum U ch) \<and>
      1 \<le> c \<and> c = count_list (map (clean U) (raw_tokens U d)) w"
    using extract_topics_entries [of _ _ U d n] by auto
next
  assume "lowered U d' = lowered U d"
  then show "extract_topics U d' n = extract_topics U d n" by (rule extract_topics_lowered)
next
  assume "agree_below 128 U latin1"
  then have "extract_topics U topic_example 15 = extract_topics latin1 topic_example 15"
    using topic_example_ascii unfolding list_all_iff by (rule extract_topics_agree)
  then show "extract_topics U topic_example 15
        = [(code_points ''cat'', 1), (code_points ''sat'', 1), (code_points ''mat'', 1),
           (code_points ''dog'', 1), (code_points ''ran'', 1)]"
    by (simp only: topic_example_latin1)
qed

theorem extract_topics_filtered_witness:
  "(code_points ''hello'', 2) \<in> set (extract_topics latin1 example_log 15) \<and>
   raw_tokens latin1 example_log
     = map code_points
         [''hello'', ''world'', ''today'', ''hello'', ''back'', ''today'', ''quick'', ''chat''] \<and>
   code_points ''back'' \<in> set stop_words \<and>
   count_list (map (clean latin1) (raw_tokens latin1 example_log)) (code_points ''hello'') = 2 \<and>
   lowered latin1 (one_message (code_points ''the THE the CAT sat ON a mat AND the dog RAN''))
     = lowered latin1 topic_example \<and>
   extract_topics latin1 (one_message (code_points ''the THE the CAT sat ON a mat AND the dog RAN'')) 15
     = extract_topics latin1 topic_example 15 \<and>
   extract_topics latin1 topic_example 15
     = [(code_points ''cat'', 1), (code_points ''sat'', 1), (code_points ''mat'', 1),
        (code_points ''dog'', 1), (code_points ''ran'', 1)] \<and>
   extract_topics latin1
       (one_message (code_points ''CAF'' @ [201] @ code_points '' au lait, caf'' @ [233])) 15
     = [(code_points ''caf'' @ [233], 2), (code_points ''lait'', 1)]"
proof -
  let ?d = "one_message (code_points ''the THE the CAT sat ON a mat AND the dog RAN'')"
  have a: "(code_points ''hello'', 2) \<in> set (extract_topics latin1 example_log 15)" by code_simp
  have b: "raw_tokens latin1 example_log
     = map code_points
         [''hello'', ''world'', ''today'', ''hello'', ''back'', ''today'', ''quick'', ''chat'']"
    by code_simp
  have c: "code_points ''back'' \<in> set stop_words" by code_simp
  have d: "lowered latin1 ?d = lowered latin1 topic_example" by code_simp
  have e: "agree_below 128 latin1 latin1" by (simp add: agree_below_def)
  have f: "extract_topics latin1
       (one_message (code_points ''CAF'' @ [201] @ code_points '' au lait, caf'' @ [233])) 15
     = [(code_points ''caf'' @ [233], 2), (code_points ''lait'', 1)]"
    by code_simp
  note t1 = extract_topics_filtered [of latin1 example_log 15 ?d]
  from t1 a
  have g: "2 = count_list (map (clean latin1) (raw_tokens latin1 example_log)) (code_points ''hello'')"
    by blast
  note t2 = extract_topics_filtered [of latin1 topic_example 15 ?d]
  from t2 d have h: "extract_topics latin1 ?d 15 = extract_topics latin1 topic_example 15"
    by blast
  from t2 e have i: "extract_topics latin1 topic_example 15
     = [(code_points ''cat'', 1), (code_points ''sat'', 1), (code_points ''mat'', 1),
        (code_points ''dog'', 1), (code_points ''ran'', 1)]"
    by blast
  from a b c d f g h i show ?thesis by simp
qed

text \<open>
  C7. For a positive \<open>top_n\<close>, and whatever the Unicode tables are, the result is the
  first \<open>top_n\<close> entries of a list \<open>S\<close> that holds the counted words with their counts,
  each once, in the order of descending count, where the entries of equal count stand in
  the order of their first occurrence in the log. When there are no more than \<open>top_n\<close>
  different words the result is all of \<open>S\<close>.
\<close>

theorem extract_topics_ranked:
  "0 < top_n \<longrightarrow>
     (\<exists>S. mset S = mset (map (\<lambda>w. (w, count_list (kept_tokens U d) w)) (first_seen (kept_tokens U d))) \<and>
          sorted_wrt (\<lambda>a b. snd b \<le> snd a) S \<and>
          (\<forall>c. filter (\<lambda>e. snd e = c) S
                = filter (\<lambda>e. snd e = c)
                    (map (\<lambda>w. (w, count_list (kept_tokens U d) w)) (first_seen (kept_tokens U d)))) \<and>
          extract_topics U d top_n = take (nat top_n) S \<and>
          (length (first_seen (kept_tokens U d)) \<le> nat top_n \<longrightarrow> extract_topics U d top_n = S))"
proof
  assume pos: "0 < top_n"
  let ?items = "map (\<lambda>w. (w, count_list (kept_tokens U d) w)) (first_seen (kept_tokens U d))"
  let ?S = "sorted_reverse ?items"
  have e: "extract_topics U d top_n = take (nat top_n) ?S"
    using pos by (simp add: extract_topics_def Let_def slice_to_def word_counts_kept)
  have "length ?S = length (first_seen (kept_tokens U d))"
    by (simp add: sorted_reverse_def)
  then have f: "length (first_seen (kept_tokens U d)) \<le> nat top_n \<longrightarrow> extract_topics U d top_n = ?S"
    using e by simp
  have "mset ?S = mset ?items \<and> sorted_wrt (\<lambda>a b. snd b \<le> snd a) ?S \<and>
          (\<forall>c. filter (\<lambda>e. snd e = c) ?S = filter (\<lambda>e. snd e = c) ?items) \<and>
          extract_topics U d top_n = take (nat top_n) ?S \<and>
          (length (first_seen (kept_tokens U d)) \<le> nat top_n \<longrightarrow> extract_topics U d top_n = ?S)"
    using e f sorted_reverse_mset [of ?items] sorted_reverse_sorted [of ?items]
      sorted_reverse_stable [of _ ?items]
    by (intro conjI allI) 
  then show "\<exists>S. mset S = mset ?items \<and> sorted_wrt (\<lambda>a b. snd b \<le> snd a) S \<and>
          (\<forall>c. filter (\<lambda>e. snd e = c) S = filter (\<lambda>e. snd e = c) ?items) \<and>
          extract_topics U d top_n = take (nat top_n) S \<and>
          (length (first_seen (kept_tokens U d)) \<le> nat top_n \<longrightarrow> extract_topics U d top_n = S)"
    by (rule exI)
qed

theorem extract_topics_ranked_witness:
  "(0::int) < 2 \<and>
   kept_tokens latin1 example_log
     = map code_points [''hello'', ''world'', ''today'', ''hello'', ''today'', ''quick'', ''chat''] \<and>
   first_seen (kept_tokens latin1 example_log)
     = map code_points [''hello'', ''world'', ''today'', ''quick'', ''chat''] \<and>
   extract_topics latin1 example_log 2 = [(code_points ''hello'', 2), (code_points ''today'', 2)] \<and>
   (\<exists>S. sorted_wrt (\<lambda>a b. snd b \<le> snd a) S \<and> extract_topics latin1 example_log 2 = take (nat 2) S)"
proof -
  have a: "kept_tokens latin1 example_log
      = map code_points [''hello'', ''world'', ''today'', ''hello'', ''today'', ''quick'', ''chat'']"
    by code_simp
  have b: "first_seen (kept_tokens latin1 example_log)
      = map code_points [''hello'', ''world'', ''today'', ''quick'', ''chat'']"
    by code_simp
  have c: "extract_topics latin1 example_log 2
      = [(code_points ''hello'', 2), (code_points ''today'', 2)]" by code_simp
  from extract_topics_ranked [of 2 latin1 example_log] obtain S where
    "sorted_wrt (\<lambda>a b. snd b \<le> snd a) S" "extract_topics latin1 example_log 2 = take (nat 2) S"
    by auto
  with a b c show ?thesis by auto
qed

end
